theory Spec2Isabelle
  imports Complex_Main "HOL-Library.Sublist"
begin

section \<open>JSON values as the gateway sees them\<close>

text \<open>
  Request and response bodies are the result of \<^verbatim>\<open>JSON.parse\<close>: trees without sharing.
  An object is an association list in key order with distinct keys; reading a key that is
  not there gives JavaScript's \<^verbatim>\<open>undefined\<close>, modelled as \<open>None\<close>. Numbers are opaque to
  every function below except for the test \<^verbatim>\<open>typeof n === 'number'\<close>, so they are kept as
  rationals. Keys are ordinary own properties (no \<^verbatim>\<open>__proto__\<close>, no array-index keys, whose
  enumeration order JavaScript changes).
\<close>

datatype json =
    JNull
  | JBool bool
  | JNum rat
  | JStr string
  | JArr "json list"
  | JObj "(string \<times> json) list"

text \<open>JavaScript truthiness of a JSON value.\<close>

fun truthy :: "json \<Rightarrow> bool" where
  "truthy JNull = False"
| "truthy (JBool b) = b"
| "truthy (JNum n) = (n \<noteq> 0)"
| "truthy (JStr s) = (s \<noteq> [])"
| "truthy (JArr xs) = True"
| "truthy (JObj kvs) = True"

text \<open>Truthiness of a property read: \<^verbatim>\<open>undefined\<close> is falsy.\<close>

fun truthy_opt :: "json option \<Rightarrow> bool" where
  "truthy_opt None = False"
| "truthy_opt (Some v) = truthy v"

section \<open>Response translation: \<^verbatim>\<open>transformGeminiResponseToOpenAI\<close>, \<^verbatim>\<open>transformGeminiStreamChunk\<close>\<close>

text \<open>
  The upstream response in the shape of the data model: a list of candidates, each with
  the parts of its content, the content's role, a finish reason and an index; a field
  that is absent is \<open>None\<close>. \<^verbatim>\<open>candidate.content?.parts?.length > 0\<close> treats absent
  parts and an empty list alike, so absent parts are the empty list. The clock and the
  random suffix (\<^verbatim>\<open>id\<close>, \<^verbatim>\<open>created\<close>, the tool-call ids) are left out of the records.
\<close>

record functionCall =
  fc_name :: string
  fc_args :: "json option"

record part =
  p_text :: "string option"
  p_functionCall :: "functionCall option"

record candidate =
  cand_role :: "string option"
  cand_parts :: "part list"
  cand_finishReason :: "string option"
  cand_index :: "nat option"

record usageMetadata =
  promptTokenCount :: "nat option"
  candidatesTokenCount :: "nat option"
  totalTokenCount :: "nat option"

record gemini_response =
  candidates :: "candidate list"
  blockReason :: "string option"
  usage_meta :: "usageMetadata option"

record tool_call =
  tc_index :: "nat option"
  tc_name :: string
  tc_arguments :: json

text \<open>\<^verbatim>\<open>part.functionCall.args || {}\<close>, the value handed to \<^verbatim>\<open>JSON.stringify\<close>.\<close>

definition args_or_empty :: "json option \<Rightarrow> json" where
  "args_or_empty a = (case a of None \<Rightarrow> JObj [] | Some v \<Rightarrow> (if truthy v then v else JObj []))"

text \<open>
  \<^verbatim>\<open>contentText\<close>: the texts of the parts that have one, joined, or \<^verbatim>\<open>null\<close> when no part
  has a text.
\<close>

definition contentText_of :: "part list \<Rightarrow> string option" where
  "contentText_of ps =
     (let textParts = filter (\<lambda>p. p_text p \<noteq> None) ps
      in if textParts \<noteq> [] then Some (concat (List.map_filter p_text textParts)) else None)"

text \<open>
  \<^verbatim>\<open>toolCalls\<close>: one entry per part with a \<^verbatim>\<open>functionCall\<close>, or \<^verbatim>\<open>undefined\<close> when there is
  none. The stream translator numbers the entries, the single-shot one does not.
\<close>

definition functionCallParts :: "part list \<Rightarrow> functionCall list" where
  "functionCallParts ps = List.map_filter p_functionCall ps"

definition toolCalls_stream :: "part list \<Rightarrow> tool_call list option" where
  "toolCalls_stream ps =
     (let fcs = functionCallParts ps
      in if fcs \<noteq> []
         then Some (map (\<lambda>(i, fc). \<lparr>tc_index = Some i, tc_name = fc_name fc,
                                      tc_arguments = args_or_empty (fc_args fc)\<rparr>)
                        (zip [0..<length fcs] fcs))
         else None)"

definition toolCalls_single :: "part list \<Rightarrow> tool_call list option" where
  "toolCalls_single ps =
     (let fcs = functionCallParts ps
      in if fcs \<noteq> []
         then Some (map (\<lambda>fc. \<lparr>tc_index = None, tc_name = fc_name fc,
                                 tc_arguments = args_or_empty (fc_args fc)\<rparr>) fcs)
         else None)"

text \<open>A string read from the response is truthy unless it is absent or empty.\<close>

definition truthy_str :: "string option \<Rightarrow> bool" where
  "truthy_str s = (case s of None \<Rightarrow> False | Some t \<Rightarrow> t \<noteq> [])"

subsection \<open>The stream translator\<close>

record delta =
  d_role :: "string option"
  d_tool_calls :: "tool_call list option"
  d_content :: "string option option"

record stream_chunk =
  sc_index :: nat
  sc_delta :: delta
  sc_finish_reason :: "string option"

text \<open>The finish-reason chain of \<^verbatim>\<open>transformGeminiStreamChunk\<close>, in the source's order.\<close>

definition stream_finish_reason :: "string option \<Rightarrow> tool_call list option \<Rightarrow> string option" where
  "stream_finish_reason finishReason toolCalls =
     (if finishReason = Some ''STOP'' then Some ''stop''
      else if finishReason = Some ''MAX_TOKENS'' then Some ''length''
      else if finishReason = Some ''SAFETY'' \<or> finishReason = Some ''RECITATION''
        then Some ''content_filter''
      else if finishReason = Some ''TOOL_CALLS''
              \<or> ((case toolCalls of None \<Rightarrow> False | Some tcs \<Rightarrow> tcs \<noteq> [])
                  \<and> finishReason \<noteq> Some ''stop'' \<and> finishReason \<noteq> Some ''length'')
        then Some ''tool_calls''
      else if truthy_str finishReason \<and> finishReason \<noteq> Some ''FINISH_REASON_UNSPECIFIED''
              \<and> finishReason \<noteq> Some ''OTHER''
        then finishReason
      else None)"

definition transformGeminiStreamChunk :: "gemini_response \<Rightarrow> stream_chunk option" where
  "transformGeminiStreamChunk geminiChunk =
     (case candidates geminiChunk of
        [] \<Rightarrow> None
      | candidate # _ \<Rightarrow>
          (let contentText = contentText_of (cand_parts candidate);
               toolCalls = toolCalls_stream (cand_parts candidate);
               finishReason = stream_finish_reason (cand_finishReason candidate) toolCalls;
               has_calls = (case toolCalls of None \<Rightarrow> False | Some tcs \<Rightarrow> tcs \<noteq> []);
               role = (if truthy_str (cand_role candidate) \<and> (contentText \<noteq> None \<or> has_calls)
                       then (if cand_role candidate = Some ''model'' then Some ''assistant''
                             else cand_role candidate)
                       else None);
               dl = (if has_calls
                     then \<lparr>d_role = role, d_tool_calls = toolCalls, d_content = Some contentText\<rparr>
                     else if contentText \<noteq> None
                     then \<lparr>d_role = role, d_tool_calls = None, d_content = Some contentText\<rparr>
                     else \<lparr>d_role = role, d_tool_calls = None, d_content = None\<rparr>)
           in if d_role dl = None \<and> d_tool_calls dl = None \<and> d_content dl = None
                 \<and> \<not> truthy_str finishReason
              then None
              else Some \<lparr>sc_index = (case cand_index candidate of None \<Rightarrow> 0 | Some i \<Rightarrow> i),
                         sc_delta = dl, sc_finish_reason = finishReason\<rparr>))"

subsection \<open>The single-shot translator\<close>

record usage =
  prompt_tokens :: nat
  completion_tokens :: nat
  total_tokens :: nat

record openai_response =
  r_index :: nat
  r_content :: "string option"
  r_tool_calls :: "tool_call list option"
  r_finish_reason :: "string option"
  r_usage :: usage

definition count_or_zero :: "nat option \<Rightarrow> nat" where
  "count_or_zero n = (case n of None \<Rightarrow> 0 | Some k \<Rightarrow> k)"

text \<open>The finish-reason chain of \<^verbatim>\<open>transformGeminiResponseToOpenAI\<close>, in the source's order.\<close>

definition single_finish_reason :: "string option \<Rightarrow> tool_call list option \<Rightarrow> string option" where
  "single_finish_reason finishReason toolCalls =
     (if finishReason = Some ''STOP'' then Some ''stop''
      else if finishReason = Some ''MAX_TOKENS'' then Some ''length''
      else if finishReason = Some ''SAFETY'' \<or> finishReason = Some ''RECITATION''
        then Some ''content_filter''
      else if finishReason = Some ''TOOL_CALLS'' then Some ''tool_calls''
      else if (case toolCalls of None \<Rightarrow> False | Some tcs \<Rightarrow> tcs \<noteq> []) then Some ''tool_calls''
      else if truthy_str finishReason \<and> finishReason \<noteq> Some ''FINISH_REASON_UNSPECIFIED''
              \<and> finishReason \<noteq> Some ''OTHER''
        then finishReason
      else None)"

definition transformGeminiResponseToOpenAI :: "gemini_response \<Rightarrow> openai_response" where
  "transformGeminiResponseToOpenAI geminiResponse =
     (case candidates geminiResponse of
        [] \<Rightarrow>
          (if truthy_str (blockReason geminiResponse)
           then \<lparr>r_index = 0,
                 r_content = Some (''Request blocked by Gemini: ''
                                   @ (case blockReason geminiResponse of None \<Rightarrow> [] | Some b \<Rightarrow> b)
                                   @ ''.''),
                 r_tool_calls = None, r_finish_reason = Some ''content_filter'',
                 r_usage = \<lparr>prompt_tokens = 0, completion_tokens = 0, total_tokens = 0\<rparr>\<rparr>
           else \<lparr>r_index = 0, r_content = Some ''Gemini response missing candidates.'',
                 r_tool_calls = None, r_finish_reason = Some ''error'',
                 r_usage = \<lparr>prompt_tokens = 0, completion_tokens = 0, total_tokens = 0\<rparr>\<rparr>)
      | candidate # _ \<Rightarrow>
          (let contentText0 = contentText_of (cand_parts candidate);
               toolCalls = toolCalls_single (cand_parts candidate);
               finishReason0 = single_finish_reason (cand_finishReason candidate) toolCalls;
               blocked = (contentText0 = None \<and> toolCalls = None
                          \<and> cand_finishReason candidate = Some ''SAFETY'');
               contentText = (if blocked then Some ''[Content blocked due to safety settings]''
                              else contentText0);
               finishReason = (if blocked then Some ''content_filter''
                               else if cand_finishReason candidate = Some ''RECITATION''
                               then Some ''content_filter''
                               else finishReason0);
               um = usage_meta geminiResponse
           in \<lparr>r_index = (case cand_index candidate of None \<Rightarrow> 0 | Some i \<Rightarrow> i),
               r_content = contentText,
               r_tool_calls = toolCalls,
               r_finish_reason = finishReason,
               r_usage = \<lparr>prompt_tokens = count_or_zero (Option.bind um promptTokenCount),
                           completion_tokens = count_or_zero (Option.bind um candidatesTokenCount),
                           total_tokens = count_or_zero (Option.bind um totalTokenCount)\<rparr>\<rparr>))"

subsection \<open>Finish reasons\<close>

definition has_functionCall :: "candidate \<Rightarrow> bool" where
  "has_functionCall c = list_ex (\<lambda>p. p_functionCall p \<noteq> None) (cand_parts c)"

definition single_reason :: "gemini_response \<Rightarrow> string option" where
  "single_reason g = r_finish_reason (transformGeminiResponseToOpenAI g)"

definition stream_reason :: "gemini_response \<Rightarrow> string option option" where
  "stream_reason g = map_option sc_finish_reason (transformGeminiStreamChunk g)"

lemma functionCallParts_empty:
  "(functionCallParts ps = []) = (\<not> list_ex (\<lambda>p. p_functionCall p \<noteq> None) ps)"
  by (induction ps) (auto simp: functionCallParts_def List.map_filter_simps split: option.splits)

lemma toolCalls_single_calls:
  "(case toolCalls_single ps of None \<Rightarrow> False | Some tcs \<Rightarrow> tcs \<noteq> [])
     = list_ex (\<lambda>p. p_functionCall p \<noteq> None) ps"
  by (simp add: toolCalls_single_def Let_def functionCallParts_empty)

lemma toolCalls_single_None:
  "(toolCalls_single ps = None) = (\<not> list_ex (\<lambda>p. p_functionCall p \<noteq> None) ps)"
  by (simp add: toolCalls_single_def Let_def functionCallParts_empty)

lemma toolCalls_stream_calls:
  "(case toolCalls_stream ps of None \<Rightarrow> False | Some tcs \<Rightarrow> tcs \<noteq> [])
     = list_ex (\<lambda>p. p_functionCall p \<noteq> None) ps"
  by (simp add: toolCalls_stream_def Let_def functionCallParts_empty)

lemma toolCalls_stream_None:
  "(toolCalls_stream ps = None) = (\<not> list_ex (\<lambda>p. p_functionCall p \<noteq> None) ps)"
  by (simp add: toolCalls_stream_def Let_def functionCallParts_empty)

lemma single_reason_eq:
  "candidates g = c # cs \<Longrightarrow>
   single_reason g =
     (let fr = cand_finishReason c in
      if fr = Some ''SAFETY'' \<or> fr = Some ''RECITATION'' then Some ''content_filter''
      else single_finish_reason fr (toolCalls_single (cand_parts c)))"
  by (auto simp: single_reason_def transformGeminiResponseToOpenAI_def Let_def single_finish_reason_def)

lemma stream_reason_eq:
  "candidates g = c # cs \<Longrightarrow>
   stream_reason g =
     (let r = stream_finish_reason (cand_finishReason c) (toolCalls_stream (cand_parts c)) in
      if r = None \<and> contentText_of (cand_parts c) = None \<and> \<not> has_functionCall c then None
      else if r = Some [] \<and> contentText_of (cand_parts c) = None \<and> \<not> has_functionCall c then None
      else Some r)"
  apply (simp add: stream_reason_def transformGeminiStreamChunk_def Let_def has_functionCall_def
     toolCalls_stream_calls toolCalls_stream_None truthy_str_def split: option.splits)
  done

definition unknown_reason_response :: gemini_response where
  "unknown_reason_response =
     \<lparr>candidates = [\<lparr>cand_role = Some ''model'',
                      cand_parts = [\<lparr>p_text = Some ''hello'', p_functionCall = None\<rparr>],
                      cand_finishReason = Some ''BLOCKLIST'', cand_index = None\<rparr>],
      blockReason = None, usage_meta = None\<rparr>"

definition safety_call_response :: gemini_response where
  "safety_call_response =
     \<lparr>candidates = [\<lparr>cand_role = Some ''model'',
                      cand_parts = [\<lparr>p_text = None,
                                     p_functionCall = Some \<lparr>fc_name = ''f'', fc_args = None\<rparr>\<rparr>],
                      cand_finishReason = Some ''SAFETY'', cand_index = None\<rparr>],
      blockReason = None, usage_meta = None\<rparr>"

definition stop_call_response :: gemini_response where
  "stop_call_response =
     \<lparr>candidates = [\<lparr>cand_role = Some ''model'',
                      cand_parts = [\<lparr>p_text = None,
                                     p_functionCall = Some \<lparr>fc_name = ''f'', fc_args = None\<rparr>\<rparr>],
                      cand_finishReason = Some ''stop'', cand_index = None\<rparr>],
      blockReason = None, usage_meta = None\<rparr>"

text \<open>
  The two chains, case by case, for the first candidate of a response.
\<close>

lemma finish_reason_chains:
  assumes "candidates g = c # cs"
  shows
   "(cand_finishReason c = Some ''STOP'' \<longrightarrow>
       single_reason g = Some ''stop'' \<and> stream_reason g = Some (Some ''stop''))
  \<and> (cand_finishReason c = Some ''MAX_TOKENS'' \<longrightarrow>
       single_reason g = Some ''length'' \<and> stream_reason g = Some (Some ''length''))
  \<and> (cand_finishReason c = Some ''SAFETY'' \<or> cand_finishReason c = Some ''RECITATION'' \<longrightarrow>
       single_reason g = Some ''content_filter''
       \<and> stream_reason g = Some (Some ''content_filter''))
  \<and> (cand_finishReason c = Some ''TOOL_CALLS'' \<longrightarrow>
       single_reason g = Some ''tool_calls'' \<and> stream_reason g = Some (Some ''tool_calls''))
  \<and> (has_functionCall c
       \<and> cand_finishReason c \<notin> {Some ''STOP'', Some ''MAX_TOKENS'', Some ''SAFETY'',
                                 Some ''RECITATION''} \<longrightarrow>
       single_reason g = Some ''tool_calls'')
  \<and> (has_functionCall c
       \<and> cand_finishReason c \<notin> {Some ''STOP'', Some ''MAX_TOKENS'', Some ''SAFETY'',
                                 Some ''RECITATION'', Some ''stop'', Some ''length''} \<longrightarrow>
       stream_reason g = Some (Some ''tool_calls''))
  \<and> (has_functionCall c
       \<and> cand_finishReason c \<in> {Some ''stop'', Some ''length''} \<longrightarrow>
       stream_reason g = Some (cand_finishReason c))
  \<and> (\<not> has_functionCall c
       \<and> cand_finishReason c \<in> {None, Some [], Some ''FINISH_REASON_UNSPECIFIED'',
                                 Some ''OTHER''} \<longrightarrow>
       single_reason g = None \<and> stream_reason g \<in> {None, Some None})
  \<and> (\<not> has_functionCall c
       \<and> cand_finishReason c = Some s
       \<and> s \<notin> {[], ''STOP'', ''MAX_TOKENS'', ''SAFETY'', ''RECITATION'', ''TOOL_CALLS'',
               ''FINISH_REASON_UNSPECIFIED'', ''OTHER''} \<longrightarrow>
       single_reason g = Some s \<and> stream_reason g = Some (Some s))"
proof -
  note single = single_reason_eq [OF assms]
  note stream = stream_reason_eq [OF assms]
  have calls1: "(case toolCalls_single (cand_parts c) of None \<Rightarrow> False | Some tcs \<Rightarrow> tcs \<noteq> [])
                  = has_functionCall c"
    by (simp add: toolCalls_single_calls has_functionCall_def)
  have calls2: "(case toolCalls_stream (cand_parts c) of None \<Rightarrow> False | Some tcs \<Rightarrow> tcs \<noteq> [])
                  = has_functionCall c"
    by (simp add: toolCalls_stream_calls has_functionCall_def)
  show ?thesis
    unfolding single stream Let_def single_finish_reason_def stream_finish_reason_def
      calls1 calls2 truthy_str_def
    by (auto split: option.splits)
qed

text \<open>
  C4. The claim has \<^verbatim>\<open>null\<close> for every reason the translators do not know, and
  \<^verbatim>\<open>tool_calls\<close> whenever a function call comes with a reason that maps to neither \<^verbatim>\<open>stop\<close>
  nor \<^verbatim>\<open>length\<close>. The code does neither. A candidate with the text \<^verbatim>\<open>hello\<close> and the reason
  \<^verbatim>\<open>BLOCKLIST\<close> leaves both translators with the finish reason \<^verbatim>\<open>BLOCKLIST\<close>, which is no
  reason of the OpenAI format; the branch that keeps it is commented as keeping the known
  reasons. A candidate with a function call and the reason \<^verbatim>\<open>SAFETY\<close> leaves both with
  \<^verbatim>\<open>content_filter\<close>, though the comments of the override say that a reason other than
  \<^verbatim>\<open>stop\<close> and \<^verbatim>\<open>length\<close> becomes \<^verbatim>\<open>tool_calls\<close>. And on a function call with the literal
  reason \<^verbatim>\<open>stop\<close> the two translators part: \<^verbatim>\<open>tool_calls\<close> in the single response, \<^verbatim>\<open>stop\<close> in
  the stream.
\<close>

theorem finish_reason_unknown_kept:
  "single_reason unknown_reason_response = Some ''BLOCKLIST''
   \<and> stream_reason unknown_reason_response = Some (Some ''BLOCKLIST'')
   \<and> single_reason safety_call_response = Some ''content_filter''
   \<and> stream_reason safety_call_response = Some (Some ''content_filter'')
   \<and> single_reason stop_call_response = Some ''tool_calls''
   \<and> stream_reason stop_call_response = Some (Some ''stop'')"
  by (simp add: single_reason_def stream_reason_def unknown_reason_response_def
      safety_call_response_def stop_call_response_def
      transformGeminiResponseToOpenAI_def transformGeminiStreamChunk_def Let_def
      single_finish_reason_def stream_finish_reason_def contentText_of_def
      toolCalls_single_def toolCalls_stream_def functionCallParts_def
      List.map_filter_simps truthy_str_def)

section \<open>Model catalogue and model validation\<close>

text \<open>
  What both routes read from the configuration: the keys of the models config, the
  \<^verbatim>\<open>web_search\<close> setting after \<^verbatim>\<open>String(...)\<close>, whether Vertex is enabled, and the Vertex
  model ids.
\<close>

record config =
  modelIds :: "string list"
  web_search :: string
  vertexEnabled :: bool
  vertexModels :: "string list"

text \<open>\<^verbatim>\<open>s.includes(sub)\<close> and \<^verbatim>\<open>s.endsWith(suf)\<close> on strings.\<close>

fun includes_str :: "string \<Rightarrow> string \<Rightarrow> bool" where
  "includes_str [] sub = (sub = [])"
| "includes_str (c # cs) sub = (prefix sub (c # cs) \<or> includes_str cs sub)"

definition endsWith :: "string \<Rightarrow> string \<Rightarrow> bool" where
  "endsWith s suf = (length suf \<le> length s \<and> drop (length s - length suf) s = suf)"

text \<open>The test \<^verbatim>\<open>/^gemini-[2-9]\.\d/.test(modelId)\<close>.\<close>

definition gemini_2plus :: "string \<Rightarrow> bool" where
  "gemini_2plus modelId =
     (case drop 7 modelId of
        a # b # c # _ \<Rightarrow> take 7 modelId = ''gemini-'' \<and> a \<in> set ''23456789''
                           \<and> b = CHR ''.'' \<and> c \<in> set ''0123456789''
      | _ \<Rightarrow> False)"




text \<open>
  The model validation step of \<^verbatim>\<open>POST /v1/chat/completions\<close>, the test at the head of the
  handler's \<^verbatim>\<open>try\<close> block; the handler from its start, with the clean-up of the tools that
  runs before, comes after the schema sanitisation below. The list is built a second
  time, by its own code; \<^verbatim>\<open>requestedModelId\<close> is whatever JSON value the body has under
  \<^verbatim>\<open>model\<close> (\<open>None\<close> when the key is missing). \<^verbatim>\<open>includes\<close> compares without
  conversion, so only a string can be found in the list.
\<close>

datatype validation = Rejected nat string | Passed

definition enabledModels :: "config \<Rightarrow> string list" where
  "enabledModels cfg =
     (let e0 = modelIds cfg;
          e1 = (if web_search cfg = ''1''
                then e0 @ map (\<lambda>modelId. modelId @ ''-search'')
                              (filter (\<lambda>modelId. gemini_2plus modelId
                                                  \<and> \<not> endsWith modelId ''-search'')
                                      (modelIds cfg))
                else e0);
          e2 = e1 @ map (\<lambda>modelId. modelId @ '':non-thinking'')
                        (filter (\<lambda>modelId. includes_str modelId ''gemini-2.5-flash-preview''
                                            \<and> \<not> endsWith modelId '':non-thinking'')
                                (modelIds cfg))
      in if vertexEnabled cfg then e2 @ vertexModels cfg else e2)"

definition model_validation :: "config \<Rightarrow> json option \<Rightarrow> validation" where
  "model_validation cfg requestedModelId =
     (if \<not> truthy_opt requestedModelId
         \<or> \<not> (case requestedModelId of Some (JStr s) \<Rightarrow> s \<in> set (enabledModels cfg) | _ \<Rightarrow> False)
      then Rejected 400 ''invalid_request_error''
      else Passed)"



section \<open>Embeddings: the translator and the \<^verbatim>\<open>POST /v1/embedded\<close> route\<close>

text \<open>
  Reading a property of a JSON value. Of arrays, strings, numbers and booleans the code
  below reads only keys they do not have; reading a property of \<^verbatim>\<open>null\<close> throws, which
  the callers handle before they use \<open>get\<close>.
\<close>

fun get :: "json \<Rightarrow> string \<Rightarrow> json option" where
  "get (JObj kvs) k = map_of kvs k"
| "get _ k = None"

datatype js_error = TypeError | ReferenceError string

text \<open>
  \<^verbatim>\<open>s.trim()\<close> strips the white space and the line terminators of ECMAScript at both ends.
  A character of a string of the model is a code unit below 256. Among these the tab, the line
  feed, the vertical tab, the form feed, the carriage return, the space and the no-break space
  U+00A0 are stripped; the others that \<^verbatim>\<open>trim\<close> strips (U+1680, U+2000 to U+200A, U+2028,
  U+2029, U+202F, U+205F, U+3000, U+FEFF) are code units no string of the model holds.
\<close>

definition is_space :: "char \<Rightarrow> bool" where
  "is_space c =
     (c \<in> set [CHR 0x09, CHR 0x0A, CHR 0x0B, CHR 0x0C, CHR 0x0D, CHR 0x20, CHR 0xA0])"

definition trim :: "string \<Rightarrow> string" where
  "trim s = rev (dropWhile is_space (rev (dropWhile is_space s)))"

definition isInputValid :: "json \<Rightarrow> bool" where
  "isInputValid input =
     (case input of
        JStr s \<Rightarrow> 5 \<le> length (trim s)
      | JArr xs \<Rightarrow> list_ex (\<lambda>x. case x of JStr s \<Rightarrow> 5 \<le> length (trim s) | _ \<Rightarrow> False) xs
      | _ \<Rightarrow> False)"

definition usage_zero :: json where
  "usage_zero = JObj [(''prompt_tokens'', JNum 0), (''total_tokens'', JNum 0)]"

text \<open>An object literal's field whose value may be \<^verbatim>\<open>undefined\<close>: it is not serialised.\<close>

definition opt_field :: "string \<Rightarrow> json option \<Rightarrow> (string \<times> json) list" where
  "opt_field k v = (case v of None \<Rightarrow> [] | Some x \<Rightarrow> [(k, x)])"

definition embedding_error :: "json option \<Rightarrow> string \<Rightarrow> json" where
  "embedding_error modelId msg =
     JObj ([(''object'', JStr ''list''), (''data'', JArr [])] @ opt_field ''model'' modelId
           @ [(''usage'', usage_zero), (''error'', JObj [(''message'', JStr msg)])])"

text \<open>One entry of \<^verbatim>\<open>dataArr\<close>; \<^verbatim>\<open>emb.values\<close> throws when \<^verbatim>\<open>emb\<close> is \<^verbatim>\<open>null\<close>.\<close>

definition embedding_entry :: "nat \<Rightarrow> json \<Rightarrow> js_error + json" where
  "embedding_entry idx emb =
     (if emb = JNull then Inl TypeError
      else Inr (JObj [(''object'', JStr ''embedding''),
                      (''embedding'', (case get emb ''values'' of Some (JArr vs) \<Rightarrow> JArr vs
                                       | _ \<Rightarrow> JArr [])),
                      (''index'', JNum (of_nat idx))]))"

fun collect :: "('e + 'a) list \<Rightarrow> 'e + 'a list" where
  "collect [] = Inr []"
| "collect (Inl e # xs) = Inl e"
| "collect (Inr x # xs) = (case collect xs of Inl e \<Rightarrow> Inl e | Inr ys \<Rightarrow> Inr (x # ys))"

definition transformGeminiEmbeddingResponseToOpenAI ::
  "json \<Rightarrow> json option \<Rightarrow> json option \<Rightarrow> js_error + json" where
  "transformGeminiEmbeddingResponseToOpenAI geminiResponse modelId originalInput =
     (if truthy_opt originalInput \<and> \<not> (case originalInput of Some i \<Rightarrow> isInputValid i | None \<Rightarrow> False)
      then Inr (embedding_error modelId ''Input too short or lacks semantic content for embedding.'')
      else if geminiResponse = JNull then Inl TypeError
      else (case get geminiResponse ''embeddings'' of
              Some (JArr embs) \<Rightarrow>
                (case collect (map (\<lambda>(idx, emb). embedding_entry idx emb)
                                   (zip [0..<length embs] embs)) of
                   Inl e \<Rightarrow> Inl e
                 | Inr dataArr \<Rightarrow>
                     if dataArr = []
                     then Inr (embedding_error modelId
                                 ''Gemini returned empty embeddings for this input.'')
                     else Inr (JObj ([(''object'', JStr ''list''), (''data'', JArr dataArr)]
                                     @ opt_field ''model'' modelId @ [(''usage'', usage_zero)])))
            | _ \<Rightarrow>
                (case get geminiResponse ''embedding'' of
                   Some embedding \<Rightarrow>
                     (case (truthy embedding, get embedding ''values'') of
                        (True, Some (JArr valuesArr)) \<Rightarrow>
                          if valuesArr = []
                          then Inr (embedding_error modelId
                                      ''Gemini returned empty embedding vector.'')
                          else Inr (JObj ([(''object'', JStr ''list''),
                                           (''data'', JArr [JObj [(''object'', JStr ''embedding''),
                                                                  (''embedding'', JArr valuesArr),
                                                                  (''index'', JNum 0)]])]
                                          @ opt_field ''model'' modelId
                                          @ [(''usage'', usage_zero)]))
                      | _ \<Rightarrow> Inr (embedding_error modelId
                                     ''Invalid Gemini embedding response structure.''))
                 | None \<Rightarrow> Inr (embedding_error modelId
                                  ''Invalid Gemini embedding response structure.''))))"

subsection \<open>The route\<close>

text \<open>
  What \<^verbatim>\<open>geminiProxyService.proxyEmbedded\<close> hands back: an \<^verbatim>\<open>error\<close> with a \<^verbatim>\<open>status\<close>, or a
  \<^verbatim>\<open>response\<close> with its \<^verbatim>\<open>status\<close> and \<^verbatim>\<open>body\<close>.
\<close>

record proxy_result =
  pr_error :: "json option"
  pr_status :: "nat option"
  pr_response_status :: "nat option"
  pr_response_body :: json

text \<open>
  The names the handler of \<^verbatim>\<open>POST /embedded\<close> can refer to: its parameters and locals, and
  the bindings of the module. \<^verbatim>\<open>requestedModelId\<close> is a local of the handler of
  \<^verbatim>\<open>POST /chat/completions\<close> only.
\<close>

definition embedded_handler_names :: "string list" where
  "embedded_handler_names =
     [''req'', ''res'', ''next'', ''result'', ''geminiResponse'', ''selectedKeyId'',
      ''modelCategory'', ''error'']"

definition module_names :: "string list" where
  "module_names =
     [''OpenAPIV3Validator'', ''path'', ''express'', ''Readable'', ''Transform'',
      ''requireWorkerAuth'', ''geminiProxyService'', ''configService'', ''transformUtils'',
      ''vertexProxyService'', ''router'', ''openApiSpecPath'', ''validateMiddleware'']"

text \<open>
  The outcome of the handler: a JSON response, the response the route would send by
  handing the upstream body to the chat translator \<^verbatim>\<open>transformGeminiResponseToOpenAI\<close>
  (the call the source writes), or \<^verbatim>\<open>next(error)\<close> from the \<^verbatim>\<open>catch\<close> block.
\<close>

datatype route_outcome =
    Responded nat json
  | Responded_chat_translation nat json
  | Next_error js_error

definition status_or :: "nat option \<Rightarrow> nat \<Rightarrow> nat" where
  "status_or s d = (case s of None \<Rightarrow> d | Some n \<Rightarrow> (if n = 0 then d else n))"

definition embedded_route :: "proxy_result \<Rightarrow> route_outcome" where
  "embedded_route result =
     (if truthy_opt (pr_error result)
      then Responded (status_or (pr_status result) 500)
             (JObj (opt_field ''error'' (pr_error result)))
      else if ''requestedModelId'' \<in> set (embedded_handler_names @ module_names)
      then Responded_chat_translation (status_or (pr_response_status result) 200)
             (pr_response_body result)
      else Next_error (ReferenceError ''requestedModelId''))"

definition embeddings_result :: proxy_result where
  "embeddings_result =
     \<lparr>pr_error = None, pr_status = None, pr_response_status = Some 200,
      pr_response_body =
        JObj [(''embeddings'', JArr [JObj [(''values'', JArr [JNum (1/10), JNum (2/10)])]])]\<rparr>"

text \<open>
  C9 at a successful upstream result with one embedding. The claim expects the
  embedding translator's list; the route evaluates the unbound \<^verbatim>\<open>requestedModelId\<close>,
  ends in its \<^verbatim>\<open>catch\<close> block and calls \<^verbatim>\<open>next(error)\<close>. No embedding response is sent.
\<close>

theorem embedded_route_reference_error:
  "embedded_route embeddings_result = Next_error (ReferenceError ''requestedModelId'')
   \<and> transformGeminiEmbeddingResponseToOpenAI (pr_response_body embeddings_result) None None
       = Inr (JObj [(''object'', JStr ''list''),
                    (''data'', JArr [JObj [(''object'', JStr ''embedding''),
                                           (''embedding'', JArr [JNum (1/10), JNum (2/10)]),
                                           (''index'', JNum 0)]]),
                    (''usage'', JObj [(''prompt_tokens'', JNum 0), (''total_tokens'', JNum 0)])])"
  by (simp add: embedded_route_def embeddings_result_def embedded_handler_names_def
      module_names_def transformGeminiEmbeddingResponseToOpenAI_def embedding_entry_def
      opt_field_def usage_zero_def)

section \<open>Request translation: the message loop of \<^verbatim>\<open>transformOpenAiToGemini\<close>\<close>

text \<open>
  A message of the OpenAI request. \<^verbatim>\<open>role\<close>, \<^verbatim>\<open>name\<close> and \<^verbatim>\<open>tool_call_id\<close> are strings when
  present; \<^verbatim>\<open>content\<close> is any JSON value (\<open>None\<close> when the key is missing), since the code
  branches on its type; \<^verbatim>\<open>tool_calls\<close> is an array when present, and an entry that is
  \<^verbatim>\<open>null\<close> has no field.
\<close>

record fn_in =
  fn_name :: "string option"
  fn_arguments :: "string option"

record tool_call_in =
  tci_id :: "string option"
  tci_type :: "string option"
  tci_function :: "fn_in option"

record message =
  m_role :: "string option"
  m_content :: "json option"
  m_tool_calls :: "tool_call_in list option"
  m_tool_call_id :: "string option"
  m_name :: "string option"

text \<open>The parts and contents of the upstream request.\<close>

datatype out_part =
    Text_part "json option"
  | InlineData_part string string
  | FunctionCall_part string json
  | FunctionResponse_part string json

record out_content =
  oc_role :: string
  oc_parts :: "out_part list"

text \<open>
  The built-ins the loop calls, as parameters: \<^verbatim>\<open>JSON.parse\<close> (\<open>None\<close> when it throws),
  \<^verbatim>\<open>JSON.stringify\<close> and \<^verbatim>\<open>String\<close>.
\<close>

record builtins =
  JSON_parse :: "string \<Rightarrow> json option"
  JSON_stringify :: "json \<Rightarrow> string"
  String_of :: "json \<Rightarrow> string"

text \<open>
  \<^verbatim>\<open>parseDataUri\<close>: the match of \<^verbatim>\<open>/^data:(.+?);base64,(.+)$/\<close>. The first group is the
  shortest non-empty run after which \<^verbatim>\<open>;base64,\<close> and a non-empty rest follow; \<^verbatim>\<open>.\<close>
  matches no line terminator (of which the model knows the two ASCII ones).
\<close>

definition is_line_terminator :: "char \<Rightarrow> bool" where
  "is_line_terminator c = (c = CHR 0x0A \<or> c = CHR 0x0D)"

fun match_base64 :: "string \<Rightarrow> string \<Rightarrow> (string \<times> string) option" where
  "match_base64 mimeType [] = None"
| "match_base64 mimeType (c # cs) =
     (if mimeType \<noteq> [] \<and> prefix '';base64,'' (c # cs) \<and> drop 8 (c # cs) \<noteq> []
         \<and> \<not> list_ex is_line_terminator (drop 8 (c # cs))
      then Some (mimeType, drop 8 (c # cs))
      else if is_line_terminator c then None
      else match_base64 (mimeType @ [c]) cs)"

definition parseDataUri :: "string \<Rightarrow> (string \<times> string) option" where
  "parseDataUri dataUri =
     (if dataUri = [] then None
      else if prefix ''data:'' dataUri then match_base64 [] (drop 5 dataUri)
      else None)"

text \<open>
  The state of the loop: \<^verbatim>\<open>contents\<close>, \<^verbatim>\<open>systemInstruction\<close> (the value of its one text
  part, \<open>None\<close> while it is \<^verbatim>\<open>undefined\<close>) and the map \<^verbatim>\<open>toolCallIdToName\<close>.
\<close>

record tstate =
  st_contents :: "out_content list"
  st_systemInstruction :: "json option"
  st_toolCallIdToName :: "string \<Rightarrow> string option"

definition init_tstate :: tstate where
  "init_tstate = \<lparr>st_contents = [], st_systemInstruction = None,
                   st_toolCallIdToName = (\<lambda>_. None)\<rparr>"

text \<open>\<^verbatim>\<open>part.type\<close> of an element of an array content: it throws on \<^verbatim>\<open>null\<close>.\<close>

definition part_type :: "json \<Rightarrow> js_error + json option" where
  "part_type p = (if p = JNull then Inl TypeError else Inr (get p ''type''))"

text \<open>\<^verbatim>\<open>part.image_url?.url\<close>.\<close>

definition image_url_of :: "json \<Rightarrow> json option" where
  "image_url_of p =
     (case get p ''image_url'' of None \<Rightarrow> None | Some JNull \<Rightarrow> None | Some iu \<Rightarrow> get iu ''url'')"

text \<open>One element of a multi-part content (text and images).\<close>

definition content_part :: "json \<Rightarrow> js_error + out_part list" where
  "content_part p =
     (case part_type p of
        Inl e \<Rightarrow> Inl e
      | Inr t \<Rightarrow>
          if t = Some (JStr ''text'') then Inr [Text_part (get p ''text'')]
          else if t = Some (JStr ''image_url'') then
            (case image_url_of p of
               None \<Rightarrow> Inr []
             | Some imageUrl \<Rightarrow>
                 if \<not> truthy imageUrl then Inr []
                 else (case imageUrl of
                         JStr u \<Rightarrow> (case parseDataUri u of
                                      Some (mimeType, d) \<Rightarrow> Inr [InlineData_part mimeType d]
                                    | None \<Rightarrow> Inr [])
                       | _ \<Rightarrow> Inl TypeError))
          else Inr [])"

text \<open>The text parts of an array content, for an assistant message with tool calls.\<close>

definition text_part_only :: "json \<Rightarrow> js_error + out_part list" where
  "text_part_only p =
     (case part_type p of
        Inl e \<Rightarrow> Inl e
      | Inr t \<Rightarrow> if t = Some (JStr ''text'') then Inr [Text_part (get p ''text'')] else Inr [])"

definition collect_parts :: "(json \<Rightarrow> js_error + out_part list) \<Rightarrow> json list \<Rightarrow> js_error + out_part list" where
  "collect_parts f ps = (case collect (map f ps) of Inl e \<Rightarrow> Inl e | Inr pss \<Rightarrow> Inr (concat pss))"

text \<open>
  \<^verbatim>\<open>msg.content.find((p) => p.type === 'text')?.text\<close>: the search stops at the first text
  part and throws on a \<^verbatim>\<open>null\<close> element before it.
\<close>

fun find_text :: "json list \<Rightarrow> js_error + json option" where
  "find_text [] = Inr None"
| "find_text (p # ps) =
     (case part_type p of
        Inl e \<Rightarrow> Inl e
      | Inr t \<Rightarrow> if t = Some (JStr ''text'') then Inr (get p ''text'') else find_text ps)"

text \<open>One entry of \<^verbatim>\<open>msg.tool_calls\<close>: the map update and the part it pushes.\<close>

definition tool_call_step ::
  "builtins \<Rightarrow> (string \<Rightarrow> string option) \<times> out_part list \<Rightarrow> tool_call_in
     \<Rightarrow> (string \<Rightarrow> string option) \<times> out_part list" where
  "tool_call_step B acc tc =
     (case acc of (idmap, parts) \<Rightarrow>
        (case Option.bind (tci_function tc) fn_name of
           None \<Rightarrow> acc
         | Some fname \<Rightarrow>
             if tci_type tc = Some ''function'' \<and> fname \<noteq> []
             then
               (let idmap' = (case tci_id tc of
                                None \<Rightarrow> idmap
                              | Some i \<Rightarrow> if i \<noteq> [] then idmap(i \<mapsto> fname) else idmap);
                    arguments = Option.bind (tci_function tc) fn_arguments;
                    src = (case arguments of None \<Rightarrow> ''{}''
                           | Some a \<Rightarrow> if a \<noteq> [] then a else ''{}'');
                    argsObj = (case JSON_parse B src of
                                 Some v \<Rightarrow> v
                               | None \<Rightarrow> JObj ((''_error'', JStr ''Invalid JSON arguments'')
                                               # opt_field ''raw'' (map_option JStr arguments)))
                in (idmap', parts @ [FunctionCall_part fname argsObj]))
             else acc))"

definition is_tool_call_message :: "message \<Rightarrow> bool" where
  "is_tool_call_message msg =
     (m_role msg = Some ''assistant''
      \<and> (case m_tool_calls msg of None \<Rightarrow> False | Some tcs \<Rightarrow> tcs \<noteq> []))"

text \<open>The \<^verbatim>\<open>responseObj\<close> of a tool message.\<close>

definition responseObj_of :: "builtins \<Rightarrow> json option \<Rightarrow> json" where
  "responseObj_of B c =
     (let r = (case c of
                 Some (JStr s) \<Rightarrow> (case JSON_parse B s of Some v \<Rightarrow> v
                                   | None \<Rightarrow> JObj [(''content'', JStr s)])
               | Some (JObj kvs) \<Rightarrow> JObj kvs
               | Some (JArr xs) \<Rightarrow> JArr xs
               | Some JNull \<Rightarrow> JObj [(''content'', JStr [])]
               | None \<Rightarrow> JObj [(''content'', JStr [])]
               | Some v \<Rightarrow> JObj [(''content'', JStr (String_of B v))])
      in case r of JObj kvs \<Rightarrow> r | _ \<Rightarrow> JObj [(''content'', r)])"

text \<open>
  The body of \<^verbatim>\<open>messages.forEach\<close>: one message against the state. \<open>safety\<close> is
  \<^verbatim>\<open>isSafetyEnabled\<close>, \<open>model\<close> is \<^verbatim>\<open>requestedModelId\<close>.
\<close>

definition push_content :: "tstate \<Rightarrow> string \<Rightarrow> out_part list \<Rightarrow> tstate" where
  "push_content st r parts =
     (if parts \<noteq> [] then st\<lparr>st_contents := st_contents st @ [\<lparr>oc_role = r, oc_parts = parts\<rparr>]\<rparr>
      else st)"

definition system_as_user :: "bool \<Rightarrow> string option \<Rightarrow> bool" where
  "system_as_user safety model =
     (\<not> safety \<or> (case model of None \<Rightarrow> False | Some m \<Rightarrow> m \<noteq> [] \<and> prefix ''gemma'' m))"

definition plain_content :: "tstate \<Rightarrow> string \<Rightarrow> message \<Rightarrow> js_error + tstate" where
  "plain_content st r msg =
     (case m_content msg of
        Some (JStr s) \<Rightarrow> Inr (push_content st r [Text_part (Some (JStr s))])
      | Some (JArr ps) \<Rightarrow>
          (case collect_parts content_part ps of
             Inl e \<Rightarrow> Inl e
           | Inr parts \<Rightarrow> Inr (push_content st r parts))
      | _ \<Rightarrow> Inr st)"

text \<open>A system message that becomes the \<^verbatim>\<open>systemInstruction\<close>.\<close>

definition system_message :: "tstate \<Rightarrow> message \<Rightarrow> js_error + tstate" where
  "system_message st msg =
     (case m_content msg of
        Some (JStr s) \<Rightarrow> Inr (st\<lparr>st_systemInstruction := Some (JStr s)\<rparr>)
      | Some (JArr ps) \<Rightarrow>
          (case find_text ps of
             Inl e \<Rightarrow> Inl e
           | Inr textContent \<Rightarrow>
               if truthy_opt textContent
               then Inr (st\<lparr>st_systemInstruction := textContent\<rparr>)
               else Inr st)
      | _ \<Rightarrow> Inr st)"

text \<open>An assistant message with tool calls: the calls, then its text.\<close>

definition tool_call_message :: "builtins \<Rightarrow> tstate \<Rightarrow> string \<Rightarrow> message \<Rightarrow> js_error + tstate" where
  "tool_call_message B st r msg =
     (case foldl (tool_call_step B) (st_toolCallIdToName st, [])
                 (case m_tool_calls msg of None \<Rightarrow> [] | Some tcs \<Rightarrow> tcs) of
        (idmap, calls) \<Rightarrow>
          (case (case m_content msg of
                   Some (JStr s) \<Rightarrow> Inr (if s \<noteq> [] then [Text_part (Some (JStr s))] else [])
                 | Some (JArr ps) \<Rightarrow> collect_parts text_part_only ps
                 | _ \<Rightarrow> Inr []) of
             Inl e \<Rightarrow> Inl e
           | Inr texts \<Rightarrow>
               Inr (push_content (st\<lparr>st_toolCallIdToName := idmap\<rparr>) r (calls @ texts))))"

text \<open>
  A tool message: \<^verbatim>\<open>name\<close> is \<^verbatim>\<open>msg.name\<close>, or else what the map has for
  \<^verbatim>\<open>msg.tool_call_id\<close>; without a name the message is sent as text.
\<close>

definition resolve_name :: "tstate \<Rightarrow> message \<Rightarrow> string option" where
  "resolve_name st msg =
     (if truthy_str (m_name msg) then m_name msg
      else if truthy_str (m_tool_call_id msg)
      then Option.bind (m_tool_call_id msg) (st_toolCallIdToName st)
      else None)"

definition tool_message :: "builtins \<Rightarrow> tstate \<Rightarrow> string \<Rightarrow> message \<Rightarrow> tstate" where
  "tool_message B st r msg =
     (let name = resolve_name st msg;
          responseObj = responseObj_of B (m_content msg)
      in if truthy_str name
         then push_content st r
                [FunctionResponse_part (case name of Some n \<Rightarrow> n | None \<Rightarrow> []) responseObj]
         else push_content st r
                [Text_part (Some (JStr (case m_content msg of
                                          Some (JStr s) \<Rightarrow> s
                                        | _ \<Rightarrow> JSON_stringify B responseObj)))])"

definition translate_message ::
  "builtins \<Rightarrow> bool \<Rightarrow> string option \<Rightarrow> tstate \<Rightarrow> message \<Rightarrow> js_error + tstate" where
  "translate_message B safety model st msg =
     (if m_role msg = Some ''system'' \<and> \<not> system_as_user safety model
      then system_message st msg
      else if m_role msg \<notin> {Some ''user'', Some ''assistant'', Some ''tool'', Some ''system''}
      then Inr st
      else
        (let r = (if m_role msg = Some ''assistant'' then ''model'' else ''user'') in
         if is_tool_call_message msg then tool_call_message B st r msg
         else if m_role msg = Some ''tool'' then Inr (tool_message B st r msg)
         else plain_content st r msg))"

fun translate_messages ::
  "builtins \<Rightarrow> bool \<Rightarrow> string option \<Rightarrow> tstate \<Rightarrow> message list \<Rightarrow> js_error + tstate" where
  "translate_messages B safety model st [] = Inr st"
| "translate_messages B safety model st (msg # msgs) =
     (case translate_message B safety model st msg of
        Inl e \<Rightarrow> Inl e
      | Inr st' \<Rightarrow> translate_messages B safety model st' msgs)"

lemma translate_messages_append:
  "translate_messages B safety model st (xs @ ys) =
     (case translate_messages B safety model st xs of
        Inl e \<Rightarrow> Inl e
      | Inr st' \<Rightarrow> translate_messages B safety model st' ys)"
  by (induction xs arbitrary: st) (auto split: sum.splits)

subsection \<open>System messages\<close>

text \<open>
  What a system message makes of \<^verbatim>\<open>systemInstruction\<close> when it is not treated as a user
  message: the new text, or \<open>None\<close> when it leaves the variable alone.
\<close>

definition system_text :: "message \<Rightarrow> json option" where
  "system_text msg =
     (case m_content msg of
        Some (JStr s) \<Rightarrow> Some (JStr s)
      | Some (JArr ps) \<Rightarrow> (case find_text ps of
                             Inr textContent \<Rightarrow> if truthy_opt textContent then textContent else None
                           | Inl e \<Rightarrow> None)
      | _ \<Rightarrow> None)"

definition is_system :: "message \<Rightarrow> bool" where
  "is_system msg = (m_role msg = Some ''system'')"

lemma translate_system:
  assumes "\<not> system_as_user safety model" "is_system msg"
    "translate_message B safety model st msg = Inr st'"
  shows "st' = (case system_text msg of None \<Rightarrow> st | Some t \<Rightarrow> st\<lparr>st_systemInstruction := Some t\<rparr>)"
  using assms
  by (auto simp: translate_message_def system_message_def is_system_def system_text_def
      split: option.splits json.splits sum.splits if_splits)

lemma push_content_si:
  "push_content (st\<lparr>st_systemInstruction := x\<rparr>) r ps = (push_content st r ps)\<lparr>st_systemInstruction := x\<rparr>"
  by (simp add: push_content_def)

lemma plain_content_si:
  "plain_content (st\<lparr>st_systemInstruction := x\<rparr>) r msg =
     map_sum id (\<lambda>s. s\<lparr>st_systemInstruction := x\<rparr>) (plain_content st r msg)"
  by (simp add: plain_content_def push_content_si split: option.splits json.splits sum.splits)

lemma tool_call_message_si:
  "tool_call_message B (st\<lparr>st_systemInstruction := x\<rparr>) r msg =
     map_sum id (\<lambda>s. s\<lparr>st_systemInstruction := x\<rparr>) (tool_call_message B st r msg)"
proof -
  have upd: "\<And>idmap. st\<lparr>st_systemInstruction := x, st_toolCallIdToName := idmap\<rparr>
               = st\<lparr>st_toolCallIdToName := idmap, st_systemInstruction := x\<rparr>"
    by simp
  show ?thesis
    unfolding tool_call_message_def
    by (simp add: upd push_content_si split: prod.splits sum.splits)
qed

lemma tool_message_si:
  "tool_message B (st\<lparr>st_systemInstruction := x\<rparr>) r msg =
     (tool_message B st r msg)\<lparr>st_systemInstruction := x\<rparr>"
  by (simp add: tool_message_def resolve_name_def push_content_si Let_def)

lemma translate_other_si:
  assumes "\<not> is_system msg \<or> system_as_user safety model"
  shows "translate_message B safety model (st\<lparr>st_systemInstruction := x\<rparr>) msg =
           map_sum id (\<lambda>s. s\<lparr>st_systemInstruction := x\<rparr>) (translate_message B safety model st msg)"
  using assms
  by (auto simp: translate_message_def is_system_def plain_content_si tool_call_message_si
      tool_message_si Let_def)

lemma push_content_keeps_si: "st_systemInstruction (push_content st r ps) = st_systemInstruction st"
  by (simp add: push_content_def)

lemma translate_other_keeps_si:
  assumes "\<not> is_system msg \<or> system_as_user safety model"
    "translate_message B safety model st msg = Inr st'"
  shows "st_systemInstruction st' = st_systemInstruction st"
proof -
  from translate_other_si [OF assms(1), where B = B and st = st and x = "st_systemInstruction st"]
    assms(2)
  have "Inr st' = Inr (st'\<lparr>st_systemInstruction := st_systemInstruction st\<rparr>)"
    by simp
  then have "st' = st'\<lparr>st_systemInstruction := st_systemInstruction st\<rparr>" by simp
  then have "st_systemInstruction st' =
         st_systemInstruction (st'\<lparr>st_systemInstruction := st_systemInstruction st\<rparr>)"
    by simp
  then show ?thesis by simp
qed

lemma translate_messages_si:
  assumes "\<forall>m\<in>set msgs. \<not> is_system m"
  shows "translate_messages B safety model (st\<lparr>st_systemInstruction := x\<rparr>) msgs =
           map_sum id (\<lambda>s. s\<lparr>st_systemInstruction := x\<rparr>) (translate_messages B safety model st msgs)"
  using assms
proof (induction msgs arbitrary: st)
  case Nil
  then show ?case by simp
next
  case (Cons m ms)
  then show ?case
    by (cases "translate_message B safety model st m") (simp_all add: translate_other_si)
qed

lemma translate_messages_keeps_si:
  assumes "\<forall>m\<in>set msgs. \<not> is_system m"
    "translate_messages B safety model st msgs = Inr st'"
  shows "st_systemInstruction st' = st_systemInstruction st"
  using assms
proof (induction msgs arbitrary: st)
  case Nil
  then show ?case by simp
next
  case (Cons m ms)
  from Cons.prems(2) obtain st1 where
    m: "translate_message B safety model st m = Inr st1" and
    ms: "translate_messages B safety model st1 ms = Inr st'"
    by (auto split: sum.splits)
  from Cons.prems(1) have "\<not> is_system m \<or> system_as_user safety model" by simp
  from translate_other_keeps_si [OF this m] Cons.IH [OF _ ms] Cons.prems(1)
  show ?case by simp
qed

lemma system_messages_general:
  assumes "\<not> system_as_user safety model"
    "translate_messages B safety model st msgs = Inr st'"
  shows "translate_messages B safety model st (filter (\<lambda>m. \<not> is_system m) msgs)
           = Inr (st'\<lparr>st_systemInstruction := st_systemInstruction st\<rparr>)
         \<and> st_systemInstruction st' =
             (case List.map_filter system_text (filter is_system msgs) of
                [] \<Rightarrow> st_systemInstruction st
              | x # xs \<Rightarrow> Some (last (x # xs)))"
  using assms
proof (induction msgs arbitrary: st)
  case Nil
  then show ?case by (simp add: List.map_filter_simps)
next
  case (Cons m ms)
  from Cons.prems obtain st1 where
    m: "translate_message B safety model st m = Inr st1" and
    ms: "translate_messages B safety model st1 ms = Inr st'"
    by (auto split: sum.splits)
  note IH = Cons.IH [OF Cons.prems(1) ms]
  show ?case
  proof (cases "is_system m")
    case True
    note st1 = translate_system [OF Cons.prems(1) True m]
    have nosys: "\<forall>x\<in>set (filter (\<lambda>m. \<not> is_system m) ms). \<not> is_system x" by simp
    show ?thesis
    proof (cases "system_text m")
      case None
      with st1 have eq: "st1 = st" by simp
      show ?thesis using IH True None unfolding eq
        by (simp add: List.map_filter_simps split: list.splits)
    next
      case (Some t)
      with st1 have st1': "st1 = st\<lparr>st_systemInstruction := Some t\<rparr>" by simp
      let ?ms = "filter (\<lambda>m. \<not> is_system m) ms"
      from IH have a: "translate_messages B safety model (st\<lparr>st_systemInstruction := Some t\<rparr>) ?ms
                         = Inr (st'\<lparr>st_systemInstruction := Some t\<rparr>)"
        unfolding st1' by simp
      from a translate_messages_si [OF nosys, where B = B and safety = safety
            and model = model and st = st and x = "Some t"]
      obtain b where b: "translate_messages B safety model st ?ms = Inr b"
        and eq: "b\<lparr>st_systemInstruction := Some t\<rparr> = st'\<lparr>st_systemInstruction := Some t\<rparr>"
        by (cases "translate_messages B safety model st ?ms") auto
      from translate_messages_keeps_si [OF nosys b]
      have "b = b\<lparr>st_systemInstruction := st_systemInstruction st\<rparr>" by simp
      also have "\<dots> = (b\<lparr>st_systemInstruction := Some t\<rparr>)\<lparr>st_systemInstruction := st_systemInstruction st\<rparr>"
        by simp
      also have "\<dots> = st'\<lparr>st_systemInstruction := st_systemInstruction st\<rparr>"
        unfolding eq by simp
      finally have "translate_messages B safety model st (filter (\<lambda>m. \<not> is_system m) ms)
              = Inr (st'\<lparr>st_systemInstruction := st_systemInstruction st\<rparr>)"
        using b by simp
      with IH True Some st1' show ?thesis
        by (auto simp: List.map_filter_simps split: list.splits)
    qed
  next
    case False
    then have keep: "st_systemInstruction st1 = st_systemInstruction st"
      using translate_other_keeps_si [OF _ m] by simp
    with IH False m show ?thesis by (simp add: List.map_filter_simps split: list.splits)
  qed
qed

definition sample_builtins :: builtins where
  \<open>sample_builtins =
     \<lparr>JSON_parse = (\<lambda>s. if s = ''{"city":"NYC"}'' then Some (JObj [(''city'', JStr ''NYC'')])
                        else if s = ''{"temp":70}'' then Some (JObj [(''temp'', JNum 70)])
                        else if s = ''{}'' then Some (JObj []) else None),
      JSON_stringify = (\<lambda>v. if v = JObj [(''temp'', JNum 70)] then ''{"temp":70}'' else ''null''),
      String_of = (\<lambda>v. ''null'')\<rparr>\<close>

definition system_msg :: "json \<Rightarrow> message" where
  "system_msg c = \<lparr>m_role = Some ''system'', m_content = Some c, m_tool_calls = None,
                   m_tool_call_id = None, m_name = None\<rparr>"

text \<open>
  C10, as stated, fails: when the last system message has no usable text (here an array
  content whose text part is empty), an earlier system message stays the
  \<^verbatim>\<open>systemInstruction\<close>.
\<close>

theorem last_system_message_counterexample:
  "map_sum id st_systemInstruction
     (translate_messages sample_builtins True (Some ''gemini-2.0-flash'') init_tstate
        [system_msg (JStr ''Be brief.''),
         system_msg (JArr [JObj [(''type'', JStr ''text''), (''text'', JStr [])]])])
   = Inr (Some (JStr ''Be brief.''))"
  by (simp add: translate_message_def system_message_def system_msg_def system_as_user_def
      init_tstate_def part_type_def)

text \<open>
  C10 (amended). With safety filtering on and a model that is not a gemma model, when
  the loop returns: the \<^verbatim>\<open>systemInstruction\<close> is the text of the last system message that
  has one (a string content, or an array content whose first text part has a non-empty
  text), and \<^verbatim>\<open>undefined\<close> when there is none; every other system message is discarded,
  and \<^verbatim>\<open>contents\<close> and the tool-call map are those of the message list without its system
  messages.
\<close>

theorem last_usable_system_message_kept:
  assumes "\<not> system_as_user safety model"
    and "translate_messages B safety model init_tstate msgs = Inr st'"
  shows "translate_messages B safety model init_tstate (filter (\<lambda>m. \<not> is_system m) msgs)
           = Inr (st'\<lparr>st_systemInstruction := None\<rparr>)
         \<and> st_systemInstruction st' =
             (case List.map_filter system_text (filter is_system msgs) of
                [] \<Rightarrow> None
              | x # xs \<Rightarrow> Some (last (x # xs)))"
proof -
  have si: "st_systemInstruction init_tstate = None" by (simp add: init_tstate_def)
  from system_messages_general [OF assms] show ?thesis unfolding si by simp
qed

definition user_msg :: "string \<Rightarrow> message" where
  "user_msg s = \<lparr>m_role = Some ''user'', m_content = Some (JStr s), m_tool_calls = None,
                 m_tool_call_id = None, m_name = None\<rparr>"

definition two_system_messages :: "message list" where
  "two_system_messages = [system_msg (JStr ''Be brief.''), user_msg ''hi'',
                          system_msg (JStr ''Answer in French.'')]"

theorem last_usable_system_message_kept_witness:
  "translate_messages sample_builtins True (Some ''gemini-2.0-flash'') init_tstate
     two_system_messages
     = Inr \<lparr>st_contents = [\<lparr>oc_role = ''user'', oc_parts = [Text_part (Some (JStr ''hi''))]\<rparr>],
            st_systemInstruction = Some (JStr ''Answer in French.''),
            st_toolCallIdToName = (\<lambda>_. None)\<rparr>
   \<and> translate_messages sample_builtins True (Some ''gemini-2.0-flash'') init_tstate
       [user_msg ''hi'']
     = Inr \<lparr>st_contents = [\<lparr>oc_role = ''user'', oc_parts = [Text_part (Some (JStr ''hi''))]\<rparr>],
            st_systemInstruction = None,
            st_toolCallIdToName = (\<lambda>_. None)\<rparr>"
proof -
  have nsu: "\<not> system_as_user True (Some ''gemini-2.0-flash'')"
    by (simp add: system_as_user_def)
  have run: "translate_messages sample_builtins True (Some ''gemini-2.0-flash'') init_tstate
               two_system_messages
             = Inr \<lparr>st_contents = [\<lparr>oc_role = ''user'', oc_parts = [Text_part (Some (JStr ''hi''))]\<rparr>],
                    st_systemInstruction = Some (JStr ''Answer in French.''),
                    st_toolCallIdToName = (\<lambda>_. None)\<rparr>"
    by (simp add: two_system_messages_def translate_message_def system_message_def
        system_msg_def user_msg_def system_as_user_def init_tstate_def plain_content_def
        push_content_def is_tool_call_message_def)
  have filt: "filter (\<lambda>m. \<not> is_system m) two_system_messages = [user_msg ''hi'']"
    by (simp add: two_system_messages_def is_system_def system_msg_def user_msg_def)
  from last_usable_system_message_kept [OF nsu run] run show ?thesis
    unfolding filt by simp
qed

subsection \<open>Tool-call threading\<close>

text \<open>A message records a name for the id \<open>X\<close>: it is an assistant message with tool calls,
  one of which is a named function call with that id.\<close>

definition binds_id :: "string \<Rightarrow> message \<Rightarrow> bool" where
  "binds_id X msg =
     (is_tool_call_message msg
      \<and> list_ex (\<lambda>tc. tci_id tc = Some X \<and> tci_type tc = Some ''function''
                       \<and> truthy_str (Option.bind (tci_function tc) fn_name))
           (case m_tool_calls msg of None \<Rightarrow> [] | Some tcs \<Rightarrow> tcs))"

lemma tool_call_step_other:
  assumes "\<not> (tci_id tc = Some X \<and> tci_type tc = Some ''function''
              \<and> truthy_str (Option.bind (tci_function tc) fn_name))"
  shows "fst (tool_call_step B (idmap, ps) tc) X = idmap X"
  using assms
  by (auto simp: tool_call_step_def truthy_str_def Let_def split: option.splits)

lemma foldl_tool_call_step_other:
  assumes "\<not> list_ex (\<lambda>tc. tci_id tc = Some X \<and> tci_type tc = Some ''function''
                        \<and> truthy_str (Option.bind (tci_function tc) fn_name)) tcs"
  shows "fst (foldl (tool_call_step B) (idmap, ps) tcs) X = idmap X"
  using assms
proof (induction tcs arbitrary: idmap ps)
  case Nil
  then show ?case by simp
next
  case (Cons tc tcs)
  obtain idmap' ps' where step: "tool_call_step B (idmap, ps) tc = (idmap', ps')"
    by (cases "tool_call_step B (idmap, ps) tc")
  from Cons.prems have "idmap' X = idmap X"
    using tool_call_step_other [of tc X B idmap ps] step by simp
  with Cons.IH [of idmap' ps'] Cons.prems step show ?case by simp
qed

lemma push_content_map: "st_toolCallIdToName (push_content st r ps) = st_toolCallIdToName st"
  by (simp add: push_content_def)

lemma translate_message_keeps_binding:
  assumes "\<not> binds_id X msg" "translate_message B safety model st msg = Inr st'"
  shows "st_toolCallIdToName st' X = st_toolCallIdToName st X"
proof (cases "is_tool_call_message msg")
  case True
  with assms(1) have nb: "\<not> list_ex (\<lambda>tc. tci_id tc = Some X \<and> tci_type tc = Some ''function''
                        \<and> truthy_str (Option.bind (tci_function tc) fn_name))
                      (case m_tool_calls msg of None \<Rightarrow> [] | Some tcs \<Rightarrow> tcs)"
    by (simp add: binds_id_def)
  from True have role: "m_role msg = Some ''assistant''" by (simp add: is_tool_call_message_def)
  from assms(2) True role have "tool_call_message B st ''model'' msg = Inr st'"
    by (simp add: translate_message_def)
  then show ?thesis
    using foldl_tool_call_step_other [OF nb, of B "st_toolCallIdToName st" "[]"]
    by (auto simp: tool_call_message_def push_content_map split: prod.splits sum.splits)
next
  case False
  with assms(2) show ?thesis
    by (auto simp: translate_message_def system_message_def tool_message_def plain_content_def
        push_content_map Let_def split: if_splits option.splits json.splits sum.splits)
qed

lemma translate_messages_keep_binding:
  assumes "\<forall>m\<in>set msgs. \<not> binds_id X m" "translate_messages B safety model st msgs = Inr st'"
  shows "st_toolCallIdToName st' X = st_toolCallIdToName st X"
  using assms
proof (induction msgs arbitrary: st)
  case Nil
  then show ?case by simp
next
  case (Cons m ms)
  from Cons.prems(2) obtain st1 where
    m: "translate_message B safety model st m = Inr st1" and
    ms: "translate_messages B safety model st1 ms = Inr st'"
    by (auto split: sum.splits)
  from Cons.prems(1) have "\<not> binds_id X m" by simp
  from translate_message_keeps_binding [OF this m] Cons.IH [OF _ ms] Cons.prems(1)
  show ?case by simp
qed

lemma single_call_binds:
  assumes "m_role a = Some ''assistant''" "m_tool_calls a = Some [tc]"
    "tci_type tc = Some ''function''" "tci_id tc = Some X" "X \<noteq> []"
    "tci_function tc = Some fn" "fn_name fn = Some F" "F \<noteq> []"
    "translate_message B safety model st a = Inr st'"
  shows "st_toolCallIdToName st' X = Some F"
proof -
  from assms(1,2) have tcm: "is_tool_call_message a" by (simp add: is_tool_call_message_def)
  with assms(1,9) have "tool_call_message B st ''model'' a = Inr st'"
    by (simp add: translate_message_def)
  with assms(2-8) show ?thesis
    by (auto simp: tool_call_message_def tool_call_step_def push_content_map Let_def
        split: sum.splits)
qed

lemma tool_message_resolved:
  assumes "m_role t = Some ''tool''" "m_tool_call_id t = Some X" "\<not> truthy_str (m_name t)"
    "st_toolCallIdToName st X = Some F" "F \<noteq> []" "X \<noteq> []"
  shows "translate_message B safety model st t =
           Inr (st\<lparr>st_contents := st_contents st
                     @ [\<lparr>oc_role = ''user'',
                         oc_parts = [FunctionResponse_part F (responseObj_of B (m_content t))]\<rparr>]\<rparr>)"
  using assms
  by (simp add: translate_message_def is_tool_call_message_def tool_message_def
      resolve_name_def truthy_str_def push_content_def Let_def)

lemma tool_message_unresolved:
  assumes "m_role t = Some ''tool''" "\<not> truthy_str (resolve_name st t)"
  shows "translate_message B safety model st t =
           Inr (st\<lparr>st_contents := st_contents st
                     @ [\<lparr>oc_role = ''user'',
                         oc_parts = [Text_part (Some (JStr
                            (case m_content t of
                               Some (JStr s) \<Rightarrow> s
                             | _ \<Rightarrow> JSON_stringify B (responseObj_of B (m_content t)))))]\<rparr>]\<rparr>)"
  using assms
  by (simp add: translate_message_def is_tool_call_message_def tool_message_def
      push_content_def Let_def)

lemma push_content_grows: "\<exists>ys. st_contents (push_content st r ps) = st_contents st @ ys"
  by (simp add: push_content_def)

lemma translate_message_grows:
  assumes "translate_message B safety model st msg = Inr st'"
  shows "\<exists>ys. st_contents st' = st_contents st @ ys"
proof -
  have pc: "\<And>s r ps. st_contents (push_content s r ps)
              = st_contents s @ (if ps \<noteq> [] then [\<lparr>oc_role = r, oc_parts = ps\<rparr>] else [])"
    by (simp add: push_content_def)
  from assms show ?thesis
    by (auto simp: translate_message_def system_message_def tool_call_message_def
        tool_message_def plain_content_def pc Let_def
        split: if_splits option.splits json.splits sum.splits prod.splits)
qed

lemma translate_messages_grow:
  assumes "translate_messages B safety model st msgs = Inr st'"
  shows "\<exists>ys. st_contents st' = st_contents st @ ys"
  using assms
proof (induction msgs arbitrary: st)
  case Nil
  then show ?case by simp
next
  case (Cons m ms)
  from Cons.prems obtain st1 where
    m: "translate_message B safety model st m = Inr st1" and
    ms: "translate_messages B safety model st1 ms = Inr st'"
    by (auto split: sum.splits)
  from translate_message_grows [OF m] Cons.IH [OF ms] show ?case by auto
qed

definition call_msg :: "tool_call_in \<Rightarrow> message" where
  "call_msg tc = \<lparr>m_role = Some ''assistant'', m_content = None, m_tool_calls = Some [tc],
                  m_tool_call_id = None, m_name = None\<rparr>"

definition weather_reply :: message where
  \<open>weather_reply = \<lparr>m_role = Some ''tool'', m_content = Some (JStr ''{"temp":70}''),
                     m_tool_calls = None, m_tool_call_id = Some ''c1'', m_name = None\<rparr>\<close>

definition weather_fn :: fn_in where
  \<open>weather_fn = \<lparr>fn_name = Some ''get_weather'', fn_arguments = Some ''{"city":"NYC"}''\<rparr>\<close>

text \<open>
  C1, as stated, fails on the tool call as the claim writes it,
  \<^verbatim>\<open>{id: "c1", function: {name: "get_weather", arguments: ...}}\<close> without
  \<^verbatim>\<open>type: "function"\<close>: the loop skips the entry, records no name, emits nothing for the
  assistant message, and sends the tool message as text.
\<close>

theorem tool_call_threading_counterexample:
  \<open>map_sum id st_contents
     (translate_messages sample_builtins True (Some ''gemini-2.0-flash'') init_tstate
        [call_msg \<lparr>tci_id = Some ''c1'', tci_type = None, tci_function = Some weather_fn\<rparr>,
         weather_reply])
   = Inr [\<lparr>oc_role = ''user'', oc_parts = [Text_part (Some (JStr ''{"temp":70}''))]\<rparr>]\<close>
  by (simp add: translate_message_def call_msg_def weather_reply_def weather_fn_def
      init_tstate_def is_tool_call_message_def tool_call_message_def tool_call_step_def
      tool_message_def resolve_name_def truthy_str_def push_content_def Let_def)

text \<open>
  C1 (amended). Let an assistant message carry the single tool call
  \<^verbatim>\<open>{id: X, type: "function", function: {name: F}}\<close> with \<open>X\<close> and \<open>F\<close> not empty, let no
  message after it and before the tool message record a name for \<open>X\<close> again, and let the
  tool message carry \<^verbatim>\<open>tool_call_id = X\<close> and no (or an empty) \<^verbatim>\<open>name\<close>. When the loop
  returns, the content it emitted for the tool message is a user-role content whose one
  part is the \<^verbatim>\<open>functionResponse\<close> named \<open>F\<close>, and it is in the final \<^verbatim>\<open>contents\<close> after
  everything emitted before it. And a tool message whose name cannot be resolved, in any
  state, is emitted as one user-role content with one text part; it is never dropped.
\<close>

theorem tool_call_threading:
  assumes "m_role a = Some ''assistant''" and "m_tool_calls a = Some [tc]"
    and "tci_type tc = Some ''function''" and "tci_id tc = Some X" and "X \<noteq> []"
    and "tci_function tc = Some fn" and "fn_name fn = Some F" and "F \<noteq> []"
    and "\<forall>m\<in>set mid. \<not> binds_id X m"
    and "m_role t = Some ''tool''" and "m_tool_call_id t = Some X"
    and "\<not> truthy_str (m_name t)"
    and "translate_messages B safety model init_tstate (pre @ [a] @ mid @ [t] @ post) = Inr final"
  shows "(\<exists>st1 st2 after.
            translate_messages B safety model init_tstate (pre @ [a] @ mid) = Inr st1
            \<and> translate_message B safety model st1 t = Inr st2
            \<and> st_contents st2 = st_contents st1
                 @ [\<lparr>oc_role = ''user'',
                     oc_parts = [FunctionResponse_part F (responseObj_of B (m_content t))]\<rparr>]
            \<and> st_contents final = st_contents st2 @ after)
         \<and> (\<forall>st u. m_role u = Some ''tool'' \<and> \<not> truthy_str (resolve_name st u) \<longrightarrow>
               translate_message B safety model st u =
                 Inr (st\<lparr>st_contents := st_contents st
                           @ [\<lparr>oc_role = ''user'',
                               oc_parts = [Text_part (Some (JStr
                                  (case m_content u of
                                     Some (JStr s) \<Rightarrow> s
                                   | _ \<Rightarrow> JSON_stringify B (responseObj_of B (m_content u)))))]\<rparr>]\<rparr>))"
proof -
  from assms(13) obtain st0 where
    pre: "translate_messages B safety model init_tstate pre = Inr st0" and
    r0: "translate_messages B safety model st0 ([a] @ mid @ [t] @ post) = Inr final"
    using translate_messages_append [where xs = pre and ys = "[a] @ mid @ [t] @ post"
        and B = B and safety = safety and model = model and st = init_tstate]
    by (auto split: sum.splits)
  from r0 obtain sta where
    a: "translate_message B safety model st0 a = Inr sta" and
    r1: "translate_messages B safety model sta (mid @ [t] @ post) = Inr final"
    by (auto split: sum.splits)
  from r1 obtain st1 where
    mid: "translate_messages B safety model sta mid = Inr st1" and
    r2: "translate_messages B safety model st1 ([t] @ post) = Inr final"
    using translate_messages_append [where xs = mid and ys = "[t] @ post"
        and B = B and safety = safety and model = model and st = sta]
    by (auto split: sum.splits)
  from r2 obtain st2 where
    t: "translate_message B safety model st1 t = Inr st2" and
    post: "translate_messages B safety model st2 post = Inr final"
    by (auto split: sum.splits)
  have bound: "st_toolCallIdToName sta X = Some F"
    by (rule single_call_binds [OF assms(1-8) a])
  have "st_toolCallIdToName st1 X = Some F"
    using translate_messages_keep_binding [OF assms(9) mid] bound by simp
  from tool_message_resolved [OF assms(10,11,12) this assms(8,5), of B safety model] t
  have st2: "st_contents st2 = st_contents st1
       @ [\<lparr>oc_role = ''user'',
           oc_parts = [FunctionResponse_part F (responseObj_of B (m_content t))]\<rparr>]"
    by auto
  from translate_messages_grow [OF post] obtain after where
    after: "st_contents final = st_contents st2 @ after" by blast
  have upto: "translate_messages B safety model init_tstate (pre @ [a] @ mid) = Inr st1"
    using pre a mid by (simp add: translate_messages_append)
  from upto t st2 after have first: "\<exists>st1 st2 after.
            translate_messages B safety model init_tstate (pre @ [a] @ mid) = Inr st1
            \<and> translate_message B safety model st1 t = Inr st2
            \<and> st_contents st2 = st_contents st1
                 @ [\<lparr>oc_role = ''user'',
                     oc_parts = [FunctionResponse_part F (responseObj_of B (m_content t))]\<rparr>]
            \<and> st_contents final = st_contents st2 @ after"
    by blast
  show ?thesis
    using first tool_message_unresolved [of _ _ B safety model] by blast
qed

text \<open>The round trip of a weather call, with \<^verbatim>\<open>type: "function"\<close> on the tool call.\<close>

theorem tool_call_threading_witness:
  \<open>\<exists>st1 st2 after.
      translate_messages sample_builtins True (Some ''gemini-2.0-flash'') init_tstate
        [call_msg \<lparr>tci_id = Some ''c1'', tci_type = Some ''function'',
                   tci_function = Some weather_fn\<rparr>] = Inr st1
      \<and> translate_message sample_builtins True (Some ''gemini-2.0-flash'') st1 weather_reply
          = Inr st2
      \<and> st_contents st2 = st_contents st1
           @ [\<lparr>oc_role = ''user'',
               oc_parts = [FunctionResponse_part ''get_weather'' (JObj [(''temp'', JNum 70)])]\<rparr>]
      \<and> st_contents st2 =
           [\<lparr>oc_role = ''model'',
             oc_parts = [FunctionCall_part ''get_weather'' (JObj [(''city'', JStr ''NYC'')])]\<rparr>,
            \<lparr>oc_role = ''user'',
             oc_parts = [FunctionResponse_part ''get_weather'' (JObj [(''temp'', JNum 70)])]\<rparr>]
           @ after\<close>
proof -
  let ?tc = "\<lparr>tci_id = Some ''c1'', tci_type = Some ''function'',
              tci_function = Some weather_fn\<rparr>"
  let ?B = sample_builtins
  let ?final = "\<lparr>st_contents =
           [\<lparr>oc_role = ''model'',
             oc_parts = [FunctionCall_part ''get_weather'' (JObj [(''city'', JStr ''NYC'')])]\<rparr>,
            \<lparr>oc_role = ''user'',
             oc_parts = [FunctionResponse_part ''get_weather'' (JObj [(''temp'', JNum 70)])]\<rparr>],
           st_systemInstruction = None,
           st_toolCallIdToName = (\<lambda>_. None)(''c1'' \<mapsto> ''get_weather'')\<rparr>"
  have run: "translate_messages ?B True (Some ''gemini-2.0-flash'') init_tstate
               ([] @ [call_msg ?tc] @ [] @ [weather_reply] @ []) = Inr ?final"
    by (simp add: translate_message_def call_msg_def weather_reply_def weather_fn_def
      init_tstate_def is_tool_call_message_def tool_call_message_def tool_call_step_def
      tool_message_def resolve_name_def truthy_str_def push_content_def Let_def
      sample_builtins_def responseObj_of_def)
  have resp: "responseObj_of ?B (m_content weather_reply) = JObj [(''temp'', JNum 70)]"
    by (simp add: responseObj_of_def weather_reply_def sample_builtins_def)
  from tool_call_threading [where a = "call_msg ?tc" and tc = ?tc and X = "''c1''"
      and fn = weather_fn and F = "''get_weather''" and mid = "[]" and t = weather_reply
      and B = ?B and safety = True and model = "Some ''gemini-2.0-flash''" and pre = "[]"
      and post = "[]" and final = ?final, OF _ _ _ _ _ _ _ _ _ _ _ _ run]
  have "\<exists>st1 st2 after.
            translate_messages ?B True (Some ''gemini-2.0-flash'') init_tstate
               ([] @ [call_msg ?tc] @ []) = Inr st1
            \<and> translate_message ?B True (Some ''gemini-2.0-flash'') st1 weather_reply = Inr st2
            \<and> st_contents st2 = st_contents st1
                 @ [\<lparr>oc_role = ''user'',
                     oc_parts = [FunctionResponse_part ''get_weather''
                                   (responseObj_of ?B (m_content weather_reply))]\<rparr>]
            \<and> st_contents ?final = st_contents st2 @ after"
    by (simp add: call_msg_def weather_fn_def weather_reply_def truthy_str_def)
  then obtain st1 st2 after where
    h: "translate_messages ?B True (Some ''gemini-2.0-flash'') init_tstate [call_msg ?tc] = Inr st1"
       "translate_message ?B True (Some ''gemini-2.0-flash'') st1 weather_reply = Inr st2"
       "st_contents st2 = st_contents st1
                 @ [\<lparr>oc_role = ''user'',
                     oc_parts = [FunctionResponse_part ''get_weather'' (JObj [(''temp'', JNum 70)])]\<rparr>]"
       "st_contents ?final = st_contents st2 @ after"
    unfolding resp by auto
  from h(1) have "st_contents st1 = [\<lparr>oc_role = ''model'',
             oc_parts = [FunctionCall_part ''get_weather'' (JObj [(''city'', JStr ''NYC'')])]\<rparr>]"
    by (auto simp add: translate_message_def call_msg_def weather_fn_def
      init_tstate_def is_tool_call_message_def tool_call_message_def tool_call_step_def
      push_content_def Let_def sample_builtins_def)
  with h show ?thesis by (intro exI [of _ st1] exI [of _ st2] exI [of _ "[]"]) simp
qed

section \<open>Schema sanitisation, first pass: \<^verbatim>\<open>transformJsonSchemaFields\<close>\<close>

subsection \<open>Objects\<close>

text \<open>
  \<^verbatim>\<open>obj[k] = v\<close> keeps the place of a key that is there and appends a new one;
  \<^verbatim>\<open>delete obj[k]\<close> removes it; \<^verbatim>\<open>k in obj\<close> asks for the key.
\<close>

fun obj_set :: "string \<Rightarrow> json \<Rightarrow> (string \<times> json) list \<Rightarrow> (string \<times> json) list" where
  "obj_set k v [] = [(k, v)]"
| "obj_set k v ((k', v') # kvs) = (if k' = k then (k, v) # kvs else (k', v') # obj_set k v kvs)"

definition obj_del :: "string \<Rightarrow> (string \<times> json) list \<Rightarrow> (string \<times> json) list" where
  "obj_del k kvs = filter (\<lambda>(k', v). k' \<noteq> k) kvs"

definition has_key :: "string \<Rightarrow> (string \<times> json) list \<Rightarrow> bool" where
  "has_key k kvs = (map_of kvs k \<noteq> None)"

text \<open>The decimal name of an array index, the key under which a spread array has it.\<close>

function dec :: "nat \<Rightarrow> string" where
  "dec n = (if n < 10 then [''0123456789'' ! n]
            else dec (n div 10) @ [''0123456789'' ! (n mod 10)])"
  by pat_completeness auto
termination
  by (relation "measure id") auto

subsection \<open>Identity of objects\<close>

text \<open>
  \<^verbatim>\<open>visited\<close> is a \<^verbatim>\<open>WeakSet\<close>: it holds objects by identity. The schema is a tree, so an
  object is identified by the path that leads to it; the objects the function builds and
  transforms again (the branches of a combinator) get paths of their own.
\<close>

datatype step = Key string | Idx nat | Branch string nat

type_synonym path = "step list"

text \<open>
  \<^verbatim>\<open>currentLevelDefs\<close>: name to definition, each definition with its identity. The entries
  of \<^verbatim>\<open>definitions\<close> come before those of \<^verbatim>\<open>$defs\<close> and those before the parent's, so the
  first hit of a lookup is the one the spread order of the source leaves in place.
\<close>

type_synonym defs = "(string \<times> path \<times> json) list"

text \<open>
  The entries that \<^verbatim>\<open>...(schemaObj[k] || {})\<close> spreads: the own keys of an object, the
  indices of an array or of a string; nothing for any other value.
\<close>

definition spread :: "path \<Rightarrow> string \<Rightarrow> json option \<Rightarrow> defs" where
  "spread p k d =
     (case d of
        Some (JObj kvs) \<Rightarrow> map (\<lambda>(name, v). (name, p @ [Key k, Key name], v)) kvs
      | Some (JArr xs) \<Rightarrow> map (\<lambda>(i, v). (dec i, p @ [Key k, Idx i], v)) (zip [0..<length xs] xs)
      | Some (JStr s) \<Rightarrow> map (\<lambda>(i, c). (dec i, p @ [Key k, Idx i], JStr [c])) (zip [0..<length s] s)
      | _ \<Rightarrow> [])"

subsection \<open>The steps on one object\<close>

text \<open>The keys the copy loop skips.\<close>

definition skipped_keys :: "string list" where
  "skipped_keys = [''$schema'', ''$defs'', ''$ref'', ''additionalProperties'',
                   ''patternProperties'', ''definitions'']"

text \<open>Post-processing 1: \<^verbatim>\<open>enum\<close> stays only beside \<^verbatim>\<open>type === 'string'\<close>.\<close>

definition enum_guard :: "(string \<times> json) list \<Rightarrow> (string \<times> json) list" where
  "enum_guard obj =
     (if has_key ''enum'' obj \<and> map_of obj ''type'' \<noteq> Some (JStr ''string'')
      then obj_del ''enum'' obj else obj)"

definition looksObject :: "(string \<times> json) list \<Rightarrow> bool" where
  "looksObject obj = (truthy_opt (map_of obj ''properties'') \<or> truthy_opt (map_of obj ''required''))"

definition looksArray :: "(string \<times> json) list \<Rightarrow> bool" where
  "looksArray obj =
     (has_key ''items'' obj \<or> (case map_of obj ''prefixItems'' of Some (JArr xs) \<Rightarrow> True | _ \<Rightarrow> False))"

text \<open>Post-processing 2: a missing \<^verbatim>\<open>type\<close> is inferred from the shape.\<close>

definition infer_type :: "(string \<times> json) list \<Rightarrow> (string \<times> json) list" where
  "infer_type obj =
     (if \<not> has_key ''type'' obj
      then (if looksObject obj then obj_set ''type'' (JStr ''object'') obj
            else if looksArray obj then obj_set ''type'' (JStr ''array'') obj
            else obj)
      else obj)"

text \<open>Post-processing 3, the helpers of the combinator clean-up.\<close>

definition isNullish :: "json \<Rightarrow> bool" where
  "isNullish node =
     (case node of
        JNull \<Rightarrow> True
      | JObj kvs \<Rightarrow> map_of kvs ''enum'' = Some (JArr [JNull]) \<or> map_of kvs ''type'' = Some (JStr ''null'')
      | _ \<Rightarrow> False)"

definition isEmptySchema :: "json \<Rightarrow> bool" where
  "isEmptySchema node = (node = JObj [] \<or> node = JArr [])"

definition object_schema :: json where
  "object_schema = JObj [(''type'', JStr ''object'')]"

definition coerce_empty :: "json \<Rightarrow> json" where
  "coerce_empty sub = (if isEmptySchema sub then object_schema else sub)"

text \<open>\<^verbatim>\<open>branches.find(b => b && b.type === 'object') || branches[0]\<close>, on a list that is not empty.\<close>

definition is_object_typed :: "json \<Rightarrow> bool" where
  "is_object_typed b = (get b ''type'' = Some (JStr ''object''))"

definition preferred_branch :: "json list \<Rightarrow> json" where
  "preferred_branch branches =
     (case find is_object_typed branches of
        Some b \<Rightarrow> b
      | None \<Rightarrow> (case branches of b # _ \<Rightarrow> b | [] \<Rightarrow> object_schema))"

text \<open>The explicit type for the preferred branch, when it has none that is truthy.\<close>

definition fix_type :: "json \<Rightarrow> json" where
  "fix_type preferred =
     (case preferred of
        JObj kvs \<Rightarrow>
          if \<not> truthy_opt (map_of kvs ''type'')
          then (if looksObject kvs then JObj (obj_set ''type'' (JStr ''object'') kvs)
                else if looksArray kvs then JObj (obj_set ''type'' (JStr ''array'') kvs)
                else preferred)
          else preferred
      | _ \<Rightarrow> preferred)"

text \<open>The first of \<^verbatim>\<open>anyOf\<close>, \<^verbatim>\<open>oneOf\<close>, \<^verbatim>\<open>allOf\<close> whose value is an array.\<close>

definition first_combinator :: "(string \<times> json) list \<Rightarrow> (string \<times> json list) option" where
  "first_combinator obj =
     (case map_of obj ''anyOf'' of
        Some (JArr xs) \<Rightarrow> Some (''anyOf'', xs)
      | _ \<Rightarrow> (case map_of obj ''oneOf'' of
                Some (JArr xs) \<Rightarrow> Some (''oneOf'', xs)
              | _ \<Rightarrow> (case map_of obj ''allOf'' of
                        Some (JArr xs) \<Rightarrow> Some (''allOf'', xs)
                      | _ \<Rightarrow> None)))"

text \<open>\<^verbatim>\<open>refPath\<close> against the two local prefixes: the name after the prefix.\<close>

definition local_ref :: "string \<Rightarrow> string option" where
  "local_ref refPath =
     (if prefix ''#/$defs/'' refPath then Some (drop (length ''#/$defs/'') refPath)
      else if prefix ''#/definitions/'' refPath then Some (drop (length ''#/definitions/'') refPath)
      else None)"

definition enumerate_from0 :: "'a list \<Rightarrow> (nat \<times> 'a) list" where
  "enumerate_from0 xs = zip [0..<length xs] xs"

subsection \<open>The recursion\<close>

text \<open>
  \<open>transformJsonSchemaFields_at n\<close> is the call at \<^verbatim>\<open>depth = 21 - n\<close>: with
  \<^verbatim>\<open>MAX_RECURSION_DEPTH = 20\<close> the call at depth 21 returns \<^verbatim>\<open>{}\<close>, and every recursive call
  is one deeper. The result is \<open>Inl TypeError\<close> where the source throws, which it does
  on a truthy \<^verbatim>\<open>$ref\<close> that is no string (\<^verbatim>\<open>refPath.startsWith\<close>); inside the \<^verbatim>\<open>try\<close> of the
  combinator clean-up the error is swallowed and the object is returned as it stands.
  A name is looked up among the definitions only: \<^verbatim>\<open>currentLevelDefs[defName]\<close> also finds
  what \<^verbatim>\<open>Object.prototype\<close> defines (\<^verbatim>\<open>constructor\<close>, \<^verbatim>\<open>toString\<close>, ...), functions that are no
  JSON values; a \<^verbatim>\<open>$ref\<close> to such a name with no definition of its own is outside the model.
\<close>

fun transformJsonSchemaFields_at ::
  "nat \<Rightarrow> defs \<Rightarrow> path list \<Rightarrow> path \<Rightarrow> json \<Rightarrow> js_error + json" where
  "transformJsonSchemaFields_at 0 parentDefs visited p schemaObj = Inr (JObj [])"
| "transformJsonSchemaFields_at (Suc n) parentDefs visited p schemaObj =
     (case schemaObj of
        JArr xs \<Rightarrow>
          if p \<in> set visited then Inr (JObj [])
          else (case collect (map (\<lambda>(i, item).
                         transformJsonSchemaFields_at n parentDefs (p # visited) (p @ [Idx i]) item)
                       (enumerate_from0 xs)) of
                  Inl e \<Rightarrow> Inl e
                | Inr transformedArray \<Rightarrow> Inr (JArr transformedArray))
      | JObj kvs \<Rightarrow>
          if p \<in> set visited then Inr (JObj [])
          else
            (let currentLevelDefs = spread p ''definitions'' (map_of kvs ''definitions'')
                                    @ spread p ''$defs'' (map_of kvs ''$defs'') @ parentDefs
             in if truthy_opt (map_of kvs ''$ref'') then
                  (case map_of kvs ''$ref'' of
                     Some (JStr refPath) \<Rightarrow>
                       (case local_ref refPath of
                          None \<Rightarrow> Inr (JObj [])
                        | Some defName \<Rightarrow>
                            (case map_of currentLevelDefs defName of
                               Some (dp, d) \<Rightarrow>
                                 if truthy d
                                 then transformJsonSchemaFields_at n currentLevelDefs
                                        (p # visited) dp d
                                 else Inr (JObj [])
                             | None \<Rightarrow> Inr (JObj [])))
                   | _ \<Rightarrow> Inl TypeError)
                else
                  (case collect (map (\<lambda>(key, v).
                                  map_sum id (Pair key)
                                    (transformJsonSchemaFields_at n currentLevelDefs
                                       (p # visited) (p @ [Key key]) v))
                               (filter (\<lambda>(key, v). key \<notin> set skipped_keys) kvs)) of
                     Inl e \<Rightarrow> Inl e
                   | Inr copied \<Rightarrow>
                       (let transformedObj = infer_type (enum_guard copied) in
                        case first_combinator transformedObj of
                          None \<Rightarrow> Inr (JObj transformedObj)
                        | Some (combKey, subs) \<Rightarrow>
                            (case collect (map (\<lambda>(i, sub).
                                            transformJsonSchemaFields_at n currentLevelDefs
                                              (p # visited) (p @ [Branch combKey i]) sub)
                                         (enumerate_from0
                                            (map coerce_empty
                                               (filter (\<lambda>sub. \<not> isNullish sub) subs)))) of
                               Inl e \<Rightarrow> Inr (JObj transformedObj)
                             | Inr branches \<Rightarrow>
                                 Inr (fix_type (preferred_branch
                                        (if branches = [] then [object_schema] else branches)))))))
      | _ \<Rightarrow> Inr schemaObj)"

definition MAX_RECURSION_DEPTH :: nat where
  "MAX_RECURSION_DEPTH = 20"

text \<open>The call the route makes: no definitions, nothing visited, depth 0.\<close>

definition transformJsonSchemaFields :: "json \<Rightarrow> js_error + json" where
  "transformJsonSchemaFields schemaObj =
     transformJsonSchemaFields_at (Suc MAX_RECURSION_DEPTH) [] [] [] schemaObj"

text \<open>
  What the route does with \<^verbatim>\<open>parameters\<close> of a tool's function: nothing when they are
  falsy; else the transformation, and an explicit \<^verbatim>\<open>type\<close> at the root when it looks like
  an object.
\<close>

definition root_object_type :: "json \<Rightarrow> json" where
  "root_object_type p =
     (case p of
        JObj kvs \<Rightarrow> if \<not> truthy_opt (map_of kvs ''type'') \<and> looksObject kvs
                    then JObj (obj_set ''type'' (JStr ''object'') kvs) else p
      | _ \<Rightarrow> p)"

definition route_parameters :: "json \<Rightarrow> js_error + json" where
  "route_parameters parameters =
     (if truthy parameters
      then map_sum id root_object_type (transformJsonSchemaFields parameters)
      else Inr parameters)"

section \<open>Schema sanitisation, second pass: \<^verbatim>\<open>sanitizeToolParameters\<close>\<close>

text \<open>
  \<^verbatim>\<open>clone\<close> is \<^verbatim>\<open>JSON.parse(JSON.stringify(val))\<close>, the identity on the values of the model.
  The options are the defaults (\<^verbatim>\<open>dropTitle\<close>, \<^verbatim>\<open>keepDescription\<close>, no \<^verbatim>\<open>dropFormatIfError\<close>);
  the debug log is left out. \<^verbatim>\<open>toNumber\<close> of a value that is no number is \<^verbatim>\<open>Number(n)\<close>
  when that is finite: the conversion is the parameter \<open>C\<close>.
\<close>

definition SUPPORTED_TYPES :: "string list" where
  "SUPPORTED_TYPES = [''string'', ''number'', ''integer'', ''boolean'', ''object'', ''array'']"

definition toNumber :: "(json \<Rightarrow> rat option) \<Rightarrow> json \<Rightarrow> rat option" where
  "toNumber C n = (case n of JNum r \<Rightarrow> Some r | _ \<Rightarrow> C n)"

definition unsupported_keys :: "string list" where
  "unsupported_keys = [''$schema'', ''definitions'', ''$defs'', ''$ref'', ''patternProperties'',
                       ''examples'', ''deprecated'', ''readOnly'', ''writeOnly'']"

definition drop_keys :: "string list \<Rightarrow> (string \<times> json) list \<Rightarrow> (string \<times> json) list" where
  "drop_keys ks s = filter (\<lambda>(k, v). k \<notin> set ks) s"

definition const_to_enum :: "(string \<times> json) list \<Rightarrow> (string \<times> json) list" where
  "const_to_enum s =
     (case map_of s ''const'' of
        Some val \<Rightarrow> obj_set ''enum'' (JArr [val]) (obj_del ''const'' s)
      | None \<Rightarrow> s)"

definition rename_key :: "string \<Rightarrow> string \<Rightarrow> (string \<times> json) list \<Rightarrow> (string \<times> json) list" where
  "rename_key old new s =
     (case map_of s old of
        Some v \<Rightarrow> obj_del old (obj_set new v s)
      | None \<Rightarrow> s)"

definition isNullOnly :: "json \<Rightarrow> bool" where
  "isNullOnly node =
     (case node of
        JObj kvs \<Rightarrow> map_of kvs ''enum'' = Some (JArr [JNull]) \<or> map_of kvs ''type'' = Some (JStr ''null'')
      | _ \<Rightarrow> False)"

text \<open>The branches of a combinator: the array, or the one value wrapped into an array.\<close>

definition branch_list :: "json \<Rightarrow> json list" where
  "branch_list c = (case c of JArr xs \<Rightarrow> xs | _ \<Rightarrow> [c])"

definition branchTypes :: "json list \<Rightarrow> json list" where
  "branchTypes branches =
     filter truthy (List.map_filter (\<lambda>b. get b ''type'') (filter truthy branches))"

text \<open>
  What the loop makes of the sanitised branches: the null-only ones go, an empty schema
  becomes \<^verbatim>\<open>{type: 'object'}\<close>, and nothing left means one object branch.
\<close>

definition finish_branches :: "json list \<Rightarrow> json list" where
  "finish_branches sanitized =
     (let kept = map coerce_empty (filter (\<lambda>sub. \<not> isNullOnly sub) sanitized)
      in if kept = [] then [object_schema] else kept)"

text \<open>\<^verbatim>\<open>s[key] = branches\<close>, and a \<^verbatim>\<open>type\<close> inferred from the branches when the node has none.\<close>

definition set_branches :: "string \<Rightarrow> json list \<Rightarrow> (string \<times> json) list \<Rightarrow> (string \<times> json) list" where
  "set_branches key branches s =
     (let s1 = obj_set key (JArr branches) s
      in if \<not> has_key ''type'' s1
         then (if JStr ''object'' \<in> set (branchTypes branches)
               then obj_set ''type'' (JStr ''object'') s1
               else if JStr ''array'' \<in> set (branchTypes branches)
               then obj_set ''type'' (JStr ''array'') s1
               else s1)
         else s1)"

text \<open>One round of the combinator loop, \<open>f\<close> being \<^verbatim>\<open>sanitize\<close>.\<close>

definition combinator_step ::
  "(json \<Rightarrow> json) \<Rightarrow> string \<Rightarrow> (string \<times> json) list \<Rightarrow> (string \<times> json) list" where
  "combinator_step f key s =
     (case map_of s key of
        None \<Rightarrow> s
      | Some c \<Rightarrow>
          if \<not> truthy c then s
          else set_branches key (finish_branches (map f (branch_list c))) s)"

definition is_supported :: "json \<Rightarrow> bool" where
  "is_supported t = (case t of JStr n \<Rightarrow> n \<in> set SUPPORTED_TYPES | _ \<Rightarrow> False)"

definition type_step :: "(string \<times> json) list \<Rightarrow> (string \<times> json) list" where
  "type_step s =
     (case map_of s ''type'' of
        Some (JArr ts) \<Rightarrow>
          (case filter is_supported ts of
             [] \<Rightarrow> obj_del ''type'' s
           | [t] \<Rightarrow> obj_set ''type'' t s
           | filtered \<Rightarrow> obj_set ''anyOf'' (JArr (map (\<lambda>t. JObj [(''type'', t)]) filtered))
                           (obj_del ''type'' s))
      | Some (JStr t) \<Rightarrow> if t \<in> set SUPPORTED_TYPES then s else obj_del ''type'' s
      | _ \<Rightarrow> s)"

definition infer_type2 :: "(string \<times> json) list \<Rightarrow> (string \<times> json) list" where
  "infer_type2 s =
     (if \<not> has_key ''type'' s
      then (if looksObject s \<or> has_key ''additionalProperties'' s
            then obj_set ''type'' (JStr ''object'') s
            else if looksArray s then obj_set ''type'' (JStr ''array'') s
            else s)
      else s)"

definition is_string :: "json \<Rightarrow> bool" where
  "is_string v = (case v of JStr s \<Rightarrow> True | _ \<Rightarrow> False)"

text \<open>The three parts of the object step: properties, \<^verbatim>\<open>required\<close>, \<^verbatim>\<open>additionalProperties\<close>.\<close>

definition sanitize_properties :: "(json \<Rightarrow> json) \<Rightarrow> (string \<times> json) list \<Rightarrow> (string \<times> json) list" where
  "sanitize_properties f s =
     (case map_of s ''properties'' of
        Some (JObj ps) \<Rightarrow> obj_set ''properties'' (JObj (map (\<lambda>(prop, sub). (prop, f sub)) ps)) s
      | Some (JArr xs) \<Rightarrow> obj_set ''properties'' (JArr (map f xs)) s
      | _ \<Rightarrow> s)"

definition filter_required :: "(string \<times> json) list \<Rightarrow> (string \<times> json) list" where
  "filter_required s =
     (case map_of s ''required'' of
        Some (JArr rs) \<Rightarrow> obj_set ''required'' (JArr (filter is_string rs)) s
      | _ \<Rightarrow> s)"

definition sanitize_additional :: "(json \<Rightarrow> json) \<Rightarrow> (string \<times> json) list \<Rightarrow> (string \<times> json) list" where
  "sanitize_additional f s =
     (case map_of s ''additionalProperties'' of
        None \<Rightarrow> s
      | Some (JBool b) \<Rightarrow> s
      | Some (JObj kvs) \<Rightarrow> obj_set ''additionalProperties'' (f (JObj kvs)) s
      | Some (JArr xs) \<Rightarrow> obj_set ''additionalProperties'' (f (JArr xs)) s
      | Some _ \<Rightarrow> obj_set ''additionalProperties'' (JBool False) s)"

definition object_step :: "(json \<Rightarrow> json) \<Rightarrow> (string \<times> json) list \<Rightarrow> (string \<times> json) list" where
  "object_step f s =
     (if map_of s ''type'' = Some (JStr ''object'') \<or> truthy_opt (map_of s ''properties'')
         \<or> truthy_opt (map_of s ''required'') \<or> has_key ''additionalProperties'' s
      then sanitize_additional f (filter_required (sanitize_properties f s))
      else s)"

text \<open>A key whose value must be a number: coerced, or dropped.\<close>

definition number_key :: "(json \<Rightarrow> rat option) \<Rightarrow> string \<Rightarrow> (string \<times> json) list \<Rightarrow> (string \<times> json) list" where
  "number_key C k s =
     (case map_of s k of
        None \<Rightarrow> s
      | Some x \<Rightarrow> (case toNumber C x of None \<Rightarrow> obj_del k s | Some v \<Rightarrow> obj_set k (JNum v) s))"

definition sanitize_items :: "(json \<Rightarrow> json) \<Rightarrow> (string \<times> json) list \<Rightarrow> (string \<times> json) list" where
  "sanitize_items f s =
     (case map_of s ''items'' of
        Some items \<Rightarrow> if truthy items then obj_set ''items'' (f items) s else s
      | None \<Rightarrow> s)"

definition unique_items :: "(string \<times> json) list \<Rightarrow> (string \<times> json) list" where
  "unique_items s =
     (case map_of s ''uniqueItems'' of
        None \<Rightarrow> s
      | Some (JBool b) \<Rightarrow> s
      | Some _ \<Rightarrow> obj_del ''uniqueItems'' s)"

definition array_step ::
  "(json \<Rightarrow> rat option) \<Rightarrow> (json \<Rightarrow> json) \<Rightarrow> (string \<times> json) list \<Rightarrow> (string \<times> json) list" where
  "array_step C f s =
     (if map_of s ''type'' = Some (JStr ''array'') \<or> truthy_opt (map_of s ''items'')
      then unique_items (number_key C ''maxItems'' (number_key C ''minItems'' (sanitize_items f s)))
      else s)"

definition numeric_key :: "(json \<Rightarrow> rat option) \<Rightarrow> string \<Rightarrow> (string \<times> json) list \<Rightarrow> (string \<times> json) list" where
  "numeric_key C k s =
     (case map_of s k of
        None \<Rightarrow> s
      | Some x \<Rightarrow>
          (case toNumber C x of
             None \<Rightarrow> obj_del k s
           | Some v \<Rightarrow> if k = ''exclusiveMinimum'' \<or> k = ''exclusiveMaximum''
                       then obj_del k s else obj_set k (JNum v) s))"

definition constraints_step :: "(json \<Rightarrow> rat option) \<Rightarrow> (string \<times> json) list \<Rightarrow> (string \<times> json) list" where
  "constraints_step C s =
     number_key C ''maxLength'' (number_key C ''minLength''
       (foldl (\<lambda>s k. numeric_key C k s) s
          [''minimum'', ''maximum'', ''exclusiveMinimum'', ''exclusiveMaximum'', ''multipleOf'']))"

text \<open>The keys are dropped, \<^verbatim>\<open>const\<close> converted and the snake-case names renamed
  before anything is sanitised below the node.\<close>

definition prepare :: "(string \<times> json) list \<Rightarrow> (string \<times> json) list" where
  "prepare node =
     rename_key ''all_of'' ''allOf'' (rename_key ''one_of'' ''oneOf'' (rename_key ''any_of'' ''anyOf''
       (const_to_enum (obj_del ''title'' (drop_keys unsupported_keys node)))))"

lemma map_of_obj_set: "map_of (obj_set k v s) k' = (if k' = k then Some v else map_of s k')"
  by (induction s) auto

lemma map_of_obj_del: "map_of (obj_del k s) k' = (if k' = k then None else map_of s k')"
  by (induction s) (auto simp: obj_del_def)

lemma combinator_step_cong [fundef_cong]:
  assumes "s = s'" "key = key'"
    "\<And>c x. map_of s' key' = Some c \<Longrightarrow> truthy c \<Longrightarrow> x \<in> set (branch_list c) \<Longrightarrow> f x = g x"
  shows "combinator_step f key s = combinator_step g key' s'"
proof (cases "map_of s' key'")
  case None
  then show ?thesis by (simp add: combinator_step_def assms(1,2))
next
  case (Some c)
  show ?thesis
  proof (cases "truthy c")
    case True
    have eq: "map f (branch_list c) = map g (branch_list c)"
      using assms(3) [OF Some True] by simp
    have "set_branches key' (finish_branches (map f (branch_list c))) s'
          = set_branches key' (finish_branches (map g (branch_list c))) s'"
      by (simp only: eq)
    then show ?thesis by (simp add: combinator_step_def assms(1,2) Some True)
  next
    case False
    then show ?thesis by (simp add: combinator_step_def assms(1,2) Some)
  qed
qed

lemma sanitize_properties_cong:
  assumes
    "\<And>ps prop sub. map_of s ''properties'' = Some (JObj ps) \<Longrightarrow> (prop, sub) \<in> set ps \<Longrightarrow> f sub = g sub"
    "\<And>xs x. map_of s ''properties'' = Some (JArr xs) \<Longrightarrow> x \<in> set xs \<Longrightarrow> f x = g x"
  shows "sanitize_properties f s = sanitize_properties g s"
proof (cases "map_of s ''properties''")
  case None
  then show ?thesis by (simp add: sanitize_properties_def)
next
  case (Some v)
  show ?thesis
  proof (cases v)
    case (JObj ps)
    have "map (\<lambda>(prop, sub). (prop, f sub)) ps = map (\<lambda>(prop, sub). (prop, g sub)) ps"
      using assms(1) [of ps] Some JObj by auto
    then have "obj_set ''properties'' (JObj (map (\<lambda>(prop, sub). (prop, f sub)) ps)) s
             = obj_set ''properties'' (JObj (map (\<lambda>(prop, sub). (prop, g sub)) ps)) s"
      by (simp only:)
    then show ?thesis by (simp add: sanitize_properties_def Some JObj)
  next
    case (JArr xs)
    have "map f xs = map g xs" using assms(2) [of xs] Some JArr by auto
    then have "obj_set ''properties'' (JArr (map f xs)) s = obj_set ''properties'' (JArr (map g xs)) s"
      by (simp only:)
    then show ?thesis by (simp add: sanitize_properties_def Some JArr)
  qed (simp_all add: sanitize_properties_def Some)
qed

lemma map_of_sanitize_properties:
  "k \<noteq> ''properties'' \<Longrightarrow> map_of (sanitize_properties f s) k = map_of s k"
  by (simp add: sanitize_properties_def map_of_obj_set split: option.splits json.splits)

lemma map_of_filter_required:
  "k \<noteq> ''required'' \<Longrightarrow> map_of (filter_required s) k = map_of s k"
  by (simp add: filter_required_def map_of_obj_set split: option.splits json.splits)

lemma sanitize_additional_cong:
  assumes "\<And>ap. map_of s ''additionalProperties'' = Some ap \<Longrightarrow> f ap = g ap"
  shows "sanitize_additional f s = sanitize_additional g s"
  using assms by (simp add: sanitize_additional_def split: option.splits json.splits)

lemma object_step_cong [fundef_cong]:
  assumes "s = s'"
    "\<And>ps prop sub. map_of s' ''properties'' = Some (JObj ps) \<Longrightarrow> (prop, sub) \<in> set ps \<Longrightarrow> f sub = g sub"
    "\<And>xs x. map_of s' ''properties'' = Some (JArr xs) \<Longrightarrow> x \<in> set xs \<Longrightarrow> f x = g x"
    "\<And>ap. map_of s' ''additionalProperties'' = Some ap \<Longrightarrow> f ap = g ap"
  shows "object_step f s = object_step g s'"
proof -
  have p: "sanitize_properties f s' = sanitize_properties g s'"
    by (rule sanitize_properties_cong) (use assms(2,3) in auto)
  have "sanitize_additional f (filter_required (sanitize_properties g s'))
        = sanitize_additional g (filter_required (sanitize_properties g s'))"
    by (rule sanitize_additional_cong)
       (use assms(4) in \<open>simp add: map_of_filter_required map_of_sanitize_properties\<close>)
  then show ?thesis by (simp add: object_step_def assms(1) p)
qed

lemma array_step_cong [fundef_cong]:
  assumes "s = s'"
    "\<And>items. map_of s' ''items'' = Some items \<Longrightarrow> truthy items \<Longrightarrow> f items = g items"
  shows "array_step C f s = array_step C g s'"
proof -
  have "sanitize_items f s' = sanitize_items g s'"
    using assms(2) by (simp add: sanitize_items_def split: option.splits)
  then show ?thesis by (simp add: array_step_def assms(1))
qed

text \<open>Which keys a step leaves alone, and where the values of the prepared node come from.\<close>

lemma map_of_set_branches:
  "k' \<noteq> key \<Longrightarrow> k' \<noteq> ''type'' \<Longrightarrow> map_of (set_branches key bs s) k' = map_of s k'"
  by (simp add: set_branches_def Let_def map_of_obj_set)

lemma map_of_combinator_step:
  "k' \<noteq> key \<Longrightarrow> k' \<noteq> ''type'' \<Longrightarrow> map_of (combinator_step f key s) k' = map_of s k'"
  by (simp add: combinator_step_def map_of_set_branches split: option.splits)

lemma map_of_type_step:
  "k' \<noteq> ''anyOf'' \<Longrightarrow> k' \<noteq> ''type'' \<Longrightarrow> map_of (type_step s) k' = map_of s k'"
  by (simp add: type_step_def map_of_obj_set map_of_obj_del split: option.splits json.splits list.splits)

lemma map_of_infer_type2:
  "k' \<noteq> ''type'' \<Longrightarrow> map_of (infer_type2 s) k' = map_of s k'"
  by (simp add: infer_type2_def map_of_obj_set)

lemma map_of_sanitize_additional:
  "k \<noteq> ''additionalProperties'' \<Longrightarrow> map_of (sanitize_additional f s) k = map_of s k"
  by (simp add: sanitize_additional_def map_of_obj_set split: option.splits json.splits)

lemma map_of_object_step:
  "k \<noteq> ''properties'' \<Longrightarrow> k \<noteq> ''required'' \<Longrightarrow> k \<noteq> ''additionalProperties'' \<Longrightarrow>
   map_of (object_step f s) k = map_of s k"
  by (simp add: object_step_def map_of_sanitize_additional map_of_filter_required
      map_of_sanitize_properties)

lemma map_of_drop_keys:
  "map_of (drop_keys ks s) k = (if k \<in> set ks then None else map_of s k)"
  by (induction s) (auto simp: drop_keys_def)

lemma map_of_rename_key:
  "map_of (rename_key old new s) k =
     (if map_of s old = None then map_of s k
      else if k = old then None else if k = new then map_of s old else map_of s k)"
  by (auto simp: rename_key_def map_of_obj_set map_of_obj_del split: option.splits)

lemma map_of_const_to_enum:
  "k \<noteq> ''enum'' \<Longrightarrow> map_of (const_to_enum s) k = (if k = ''const'' then None else map_of s k)"
  by (auto simp: const_to_enum_def map_of_obj_set map_of_obj_del split: option.splits)

lemma prepare_value:
  assumes "map_of (prepare node) k = Some c" "k \<noteq> ''enum''"
  shows "\<exists>k0. map_of node k0 = Some c"
  using assms
  by (auto simp: prepare_def map_of_rename_key map_of_const_to_enum map_of_obj_del map_of_drop_keys
      split: if_splits)

lemma size_value: "map_of kvs k = Some c \<Longrightarrow> size c < size (JObj kvs)"
  by (induction kvs) (auto split: if_splits)

lemma size_element: "x \<in> set xs \<Longrightarrow> size x < size (JArr xs)"
  by (induction xs) auto

lemma size_branch: "x \<in> set (branch_list c) \<Longrightarrow> size x \<le> size c"
  using size_element [of x] by (cases c) (auto simp: branch_list_def less_imp_le)

lemma size_property: "(prop, sub) \<in> set ps \<Longrightarrow> size sub < size (JObj ps)"
  by (induction ps) auto

function sanitize :: "(json \<Rightarrow> rat option) \<Rightarrow> json \<Rightarrow> json" where
  "sanitize C (JArr xs) = JArr (map (sanitize C) xs)"
| "sanitize C (JObj node) =
     JObj (constraints_step C
            (array_step C (sanitize C)
              (object_step (sanitize C)
                (infer_type2
                  (type_step
                    (combinator_step (sanitize C) ''allOf''
                      (combinator_step (sanitize C) ''oneOf''
                        (combinator_step (sanitize C) ''anyOf'' (prepare node)))))))))"
| "sanitize C JNull = JNull"
| "sanitize C (JBool b) = JBool b"
| "sanitize C (JNum n) = JNum n"
| "sanitize C (JStr s) = JStr s"
  by pat_completeness auto
termination
proof (relation "measure (\<lambda>(C, j). size j)", goal_cases)
  case 1
  show ?case by simp
next
  case (2 C xs x)
  then show ?case using size_element [of x xs] by simp
next
  case (3 C node c x)
  note h = this
  from prepare_value [OF h(1)] obtain k0 where "map_of node k0 = Some c" by auto
  from size_value [OF this] size_branch [OF h(3)] show ?case by simp
next
  case (4 C node c x)
  note h = this
  from h(1) have "map_of (prepare node) ''oneOf'' = Some c"
    by (simp add: map_of_combinator_step)
  from prepare_value [OF this] obtain k0 where "map_of node k0 = Some c" by auto
  from size_value [OF this] size_branch [OF h(3)] show ?case by simp
next
  case (5 C node c x)
  note h = this
  from h(1) have "map_of (prepare node) ''allOf'' = Some c"
    by (simp add: map_of_combinator_step)
  from prepare_value [OF this] obtain k0 where "map_of node k0 = Some c" by auto
  from size_value [OF this] size_branch [OF h(3)] show ?case by simp
next
  case (6 C node ps pname sub)
  note h = this
  from h(1) have "map_of (prepare node) ''properties'' = Some (JObj ps)"
    by (simp add: map_of_combinator_step map_of_type_step map_of_infer_type2)
  from prepare_value [OF this] obtain k0 where "map_of node k0 = Some (JObj ps)" by auto
  from size_value [OF this] size_property [OF h(2)] show ?case by simp
next
  case (7 C node xs x)
  note h = this
  from h(1) have "map_of (prepare node) ''properties'' = Some (JArr xs)"
    by (simp add: map_of_combinator_step map_of_type_step map_of_infer_type2)
  from prepare_value [OF this] obtain k0 where "map_of node k0 = Some (JArr xs)" by auto
  from size_value [OF this] size_element [OF h(2)] show ?case by simp
next
  case (8 C node ap)
  note h = this
  from h(1) have "map_of (prepare node) ''additionalProperties'' = Some ap"
    by (simp add: map_of_combinator_step map_of_type_step map_of_infer_type2)
  from prepare_value [OF this] obtain k0 where "map_of node k0 = Some ap" by auto
  from size_value [OF this] show ?case by simp
next
  case (9 C node items)
  note h = this
  from h(1) have "map_of (prepare node) ''items'' = Some items"
    by (simp add: map_of_object_step map_of_combinator_step map_of_type_step map_of_infer_type2)
  from prepare_value [OF this] obtain k0 where "map_of node k0 = Some items" by auto
  from size_value [OF this] show ?case by simp
qed

definition node_ok :: "(string \<times> json) list \<Rightarrow> bool" where
  "node_ok kvs =
     ((\<forall>k\<in>set skipped_keys. \<not> has_key k kvs)
      \<and> (has_key ''enum'' kvs \<longrightarrow> map_of kvs ''type'' = Some (JStr ''string''))
      \<and> (\<not> has_key ''type'' kvs \<longrightarrow> \<not> looksObject kvs \<and> \<not> looksArray kvs)
      \<and> first_combinator kvs = None)"

fun normal1 :: "json \<Rightarrow> bool" where
  "normal1 (JObj kvs) = (node_ok kvs \<and> (\<forall>(k, v)\<in>set kvs. normal1 v))"
| "normal1 (JArr xs) = (\<forall>x\<in>set xs. normal1 x)"
| "normal1 _ = True"



lemma collect_map_Inr: "collect (map Inr ys) = Inr ys"
  by (induction ys) auto

lemma collect_Inr_D: "collect xs = Inr ys \<Longrightarrow> xs = map Inr ys"
proof (induction xs arbitrary: ys)
  case Nil
  then show ?case by auto
next
  case (Cons x xs)
  then show ?case by (cases x) (auto split: sum.splits)
qed

lemma collect_Inr_iff: "collect xs = Inr ys \<longleftrightarrow> xs = map Inr ys"
  using collect_map_Inr collect_Inr_D by metis

lemma collect_map_Inr_D:
  assumes "collect (map f zs) = Inr ys"
  shows "length ys = length zs \<and> (\<forall>i<length zs. f (zs ! i) = Inr (ys ! i))"
proof -
  from collect_Inr_D [OF assms] have eq: "map f zs = map Inr ys" .
  then have len: "length ys = length zs" by (metis length_map)
  have "f (zs ! i) = Inr (ys ! i)" if "i < length zs" for i
    using eq that len by (metis nth_map)
  with len show ?thesis by simp
qed

lemma collect_no_error:
  assumes "\<And>z. z \<in> set zs \<Longrightarrow> \<exists>y. f z = Inr y"
  shows "\<exists>ys. collect (map f zs) = Inr ys"
  using assms
proof (induction zs)
  case Nil
  then show ?case by simp
next
  case (Cons z zs)
  then obtain y ys where "f z = Inr y" "collect (map f zs) = Inr ys" by (meson list.set_intros)
  then show ?case by simp
qed

fun ref_free :: "json \<Rightarrow> bool" where
  "ref_free (JObj kvs) = (\<not> has_key ''$ref'' kvs \<and> (\<forall>(k, v)\<in>set kvs. ref_free v))"
| "ref_free (JArr xs) = (\<forall>x\<in>set xs. ref_free x)"
| "ref_free _ = True"

lemma normal1_ref_free: "normal1 x \<Longrightarrow> ref_free x"
  by (induction x rule: ref_free.induct) (auto simp: node_ok_def skipped_keys_def)

lemma enumerate_from0_D: "(i, x) \<in> set (enumerate_from0 xs) \<Longrightarrow> x \<in> set xs"
  by (auto simp: enumerate_from0_def dest: set_zip_rightD)

lemma transform_object_no_ref:
  assumes "\<not> truthy_opt (map_of kvs ''$ref'')" "p \<notin> set visited"
  shows "transformJsonSchemaFields_at (Suc n) parentDefs visited p (JObj kvs) =
     (let currentLevelDefs = spread p ''definitions'' (map_of kvs ''definitions'')
                             @ spread p ''$defs'' (map_of kvs ''$defs'') @ parentDefs
      in case collect (map (\<lambda>(key, v).
                        map_sum id (Pair key)
                          (transformJsonSchemaFields_at n currentLevelDefs
                             (p # visited) (p @ [Key key]) v))
                     (filter (\<lambda>(key, v). key \<notin> set skipped_keys) kvs)) of
           Inl e \<Rightarrow> Inl e
         | Inr copied \<Rightarrow>
             (let transformedObj = infer_type (enum_guard copied) in
              case first_combinator transformedObj of
                None \<Rightarrow> Inr (JObj transformedObj)
              | Some (combKey, subs) \<Rightarrow>
                  (case collect (map (\<lambda>(i, sub).
                                  transformJsonSchemaFields_at n currentLevelDefs
                                    (p # visited) (p @ [Branch combKey i]) sub)
                               (enumerate_from0
                                  (map coerce_empty
                                     (filter (\<lambda>sub. \<not> isNullish sub) subs)))) of
                     Inl e \<Rightarrow> Inr (JObj transformedObj)
                   | Inr branches \<Rightarrow>
                       Inr (fix_type (preferred_branch
                              (if branches = [] then [object_schema] else branches))))))"
  using assms by simp

lemma transform_no_throw:
  "ref_free x \<Longrightarrow> \<exists>y. transformJsonSchemaFields_at n env vis p x = Inr y"
proof (induction n arbitrary: env vis p x)
  case 0
  then show ?case by simp
next
  case (Suc n)
  show ?case
  proof (cases x)
    case (JArr xs)
    show ?thesis
    proof (cases "p \<in> set vis")
      case True
      then show ?thesis by (simp add: JArr)
    next
      case False
      have "\<exists>ys. collect (map (\<lambda>(i, item).
                         transformJsonSchemaFields_at n env (p # vis) (p @ [Idx i]) item)
                       (enumerate_from0 xs)) = Inr ys"
      proof (rule collect_no_error)
        fix z assume zin: "z \<in> set (enumerate_from0 xs)"
        obtain i item where z: "z = (i, item)" by (cases z)
        with zin have "item \<in> set xs" by (auto dest: enumerate_from0_D)
        with Suc.prems JArr have "ref_free item" by simp
        from Suc.IH [OF this] z
        show "\<exists>y. (case z of (i, item) \<Rightarrow>
                 transformJsonSchemaFields_at n env (p # vis) (p @ [Idx i]) item) = Inr y"
          by simp
      qed
      then show ?thesis using False by (auto simp: JArr)
    qed
  next
    case (JObj kvs)
    show ?thesis
    proof (cases "p \<in> set vis")
      case True
      then show ?thesis by (simp add: JObj)
    next
      case False
      from Suc.prems JObj have noref: "\<not> truthy_opt (map_of kvs ''$ref'')"
        by (simp add: has_key_def)
      let ?env = "spread p ''definitions'' (map_of kvs ''definitions'')
                  @ spread p ''$defs'' (map_of kvs ''$defs'') @ env"
      have "\<exists>ys. collect (map (\<lambda>(key, v).
                        map_sum id (Pair key)
                          (transformJsonSchemaFields_at n ?env (p # vis) (p @ [Key key]) v))
                     (filter (\<lambda>(key, v). key \<notin> set skipped_keys) kvs)) = Inr ys"
      proof (rule collect_no_error)
        fix z assume zin: "z \<in> set (filter (\<lambda>(key, v). key \<notin> set skipped_keys) kvs)"
        obtain key v where z: "z = (key, v)" by (cases z)
        with zin have "(key, v) \<in> set kvs" by auto
        with Suc.prems JObj have "ref_free v" by auto
        from Suc.IH [OF this, of ?env "p # vis" "p @ [Key key]"] z
        show "\<exists>y. (case z of (key, v) \<Rightarrow> map_sum id (Pair key)
                 (transformJsonSchemaFields_at n ?env (p # vis) (p @ [Key key]) v)) = Inr y"
          by auto
      qed
      then obtain copied where "collect (map (\<lambda>(key, v).
                        map_sum id (Pair key)
                          (transformJsonSchemaFields_at n ?env (p # vis) (p @ [Key key]) v))
                     (filter (\<lambda>(key, v). key \<notin> set skipped_keys) kvs)) = Inr copied" ..
      then show ?thesis
        unfolding JObj transform_object_no_ref [OF noref False]
        by (simp add: Let_def split: option.splits sum.splits prod.splits)
    qed
  qed (simp_all)
qed

lemma has_key_iff: "has_key k kvs \<longleftrightarrow> k \<in> fst ` set kvs"
  by (simp add: has_key_def map_of_eq_None_iff)

lemma has_key_obj_set: "has_key k (obj_set k' v s) \<longleftrightarrow> k = k' \<or> has_key k s"
  by (auto simp: has_key_def map_of_obj_set)

lemma has_key_obj_del: "has_key k (obj_del k' s) \<longleftrightarrow> k \<noteq> k' \<and> has_key k s"
  by (auto simp: has_key_def map_of_obj_del)

lemma set_obj_set: "set (obj_set k v s) \<subseteq> insert (k, v) (set s)"
  by (induction s) (auto split: if_splits)

lemma set_obj_del: "set (obj_del k s) \<subseteq> set s"
  by (auto simp: obj_del_def)

lemma looksObject_map_of:
  "map_of a ''properties'' = map_of b ''properties'' \<Longrightarrow> map_of a ''required'' = map_of b ''required''
   \<Longrightarrow> looksObject a = looksObject b"
  by (simp add: looksObject_def)

lemma looksArray_map_of:
  "map_of a ''items'' = map_of b ''items'' \<Longrightarrow> map_of a ''prefixItems'' = map_of b ''prefixItems''
   \<Longrightarrow> looksArray a = looksArray b"
  by (simp add: looksArray_def has_key_def)

lemma first_combinator_map_of:
  "map_of a ''anyOf'' = map_of b ''anyOf'' \<Longrightarrow> map_of a ''oneOf'' = map_of b ''oneOf''
   \<Longrightarrow> map_of a ''allOf'' = map_of b ''allOf'' \<Longrightarrow> first_combinator a = first_combinator b"
  unfolding first_combinator_def by (simp only:)

definition array_under :: "(string \<times> json) list \<Rightarrow> string \<Rightarrow> json list option" where
  "array_under s k = (case map_of s k of Some (JArr xs) \<Rightarrow> Some xs | _ \<Rightarrow> None)"

lemma first_combinator_alt:
  "first_combinator s =
     (case array_under s ''anyOf'' of
        Some xs \<Rightarrow> Some (''anyOf'', xs)
      | None \<Rightarrow> (case array_under s ''oneOf'' of
           Some xs \<Rightarrow> Some (''oneOf'', xs)
         | None \<Rightarrow> (case array_under s ''allOf'' of
              Some xs \<Rightarrow> Some (''allOf'', xs)
            | None \<Rightarrow> None)))"
proof -
  have a: "(case v of Some (JArr xs) \<Rightarrow> f xs | _ \<Rightarrow> d)
           = (case (case v of Some (JArr xs) \<Rightarrow> Some xs | _ \<Rightarrow> None) of Some xs \<Rightarrow> f xs | None \<Rightarrow> d)"
    for v :: "json option" and f :: "json list \<Rightarrow> (string \<times> json list) option" and d
    by (simp split: option.splits json.splits)
  show ?thesis
    unfolding first_combinator_def array_under_def
    by (simp only: a [symmetric])
qed

lemma first_combinator_SomeD:
  assumes "first_combinator s = Some (combKey, subs)"
  shows "\<exists>k. map_of s k = Some (JArr subs)"
proof -
  have u: "map_of s k = Some (JArr xs)" if "array_under s k = Some xs" for k xs
    using that by (simp add: array_under_def split: option.splits json.splits)
  from assms have "array_under s ''anyOf'' = Some subs \<or> array_under s ''oneOf'' = Some subs
                  \<or> array_under s ''allOf'' = Some subs"
    by (auto simp: first_combinator_alt split: option.splits)
  with u show ?thesis by blast
qed

lemma set_enum_guard: "set (enum_guard s) \<subseteq> set s"
  using set_obj_del by (auto simp: enum_guard_def)

lemma set_infer_type:
  "set (infer_type s) \<subseteq> insert (''type'', JStr ''object'') (insert (''type'', JStr ''array'') (set s))"
  using set_obj_set [of "''type''" _ s] by (auto simp: infer_type_def)

lemma has_key_enum_guard: "has_key k (enum_guard s) \<Longrightarrow> has_key k s"
  by (auto simp: enum_guard_def has_key_obj_del split: if_splits)

lemma has_key_infer_type: "has_key k (infer_type s) \<Longrightarrow> k = ''type'' \<or> has_key k s"
  by (auto simp: infer_type_def has_key_obj_set split: if_splits)

lemma node_ok_transformedObj:
  assumes "\<forall>k\<in>set skipped_keys. \<not> has_key k copied"
    and "first_combinator (infer_type (enum_guard copied)) = None"
  shows "node_ok (infer_type (enum_guard copied))"
proof -
  let ?g = "enum_guard copied"
  have skip: "\<forall>k\<in>set skipped_keys. \<not> has_key k (infer_type ?g)"
    using assms(1) has_key_infer_type [of _ ?g] has_key_enum_guard [of _ copied]
    by (auto simp: skipped_keys_def)
  have guard: "has_key ''enum'' ?g \<longrightarrow> map_of ?g ''type'' = Some (JStr ''string'')"
    by (auto simp: enum_guard_def has_key_obj_del)
  have enum: "has_key ''enum'' (infer_type ?g) \<longrightarrow> map_of (infer_type ?g) ''type'' = Some (JStr ''string'')"
    using guard by (auto simp: infer_type_def has_key_def map_of_obj_set)
  have lo: "looksObject (obj_set ''type'' v ?g) = looksObject ?g" for v
    by (rule looksObject_map_of) (simp_all add: map_of_obj_set)
  have la: "looksArray (obj_set ''type'' v ?g) = looksArray ?g" for v
    by (rule looksArray_map_of) (simp_all add: map_of_obj_set)
  have ty: "\<not> has_key ''type'' (infer_type ?g) \<longrightarrow>
              \<not> looksObject (infer_type ?g) \<and> \<not> looksArray (infer_type ?g)"
    by (auto simp: infer_type_def has_key_obj_set lo la)
  from skip enum ty assms(2) show ?thesis by (simp add: node_ok_def)
qed

lemma normal1_fix_type:
  assumes "normal1 b"
  shows "normal1 (fix_type b)"
proof (cases b)
  case (JObj kvs)
  with assms have ok: "node_ok kvs" and vals: "\<forall>(k, v)\<in>set kvs. normal1 v" by auto
  have "normal1 (JObj (obj_set ''type'' (JStr t) kvs))" if "\<not> truthy_opt (map_of kvs ''type'')" for t
  proof -
    let ?s = "obj_set ''type'' (JStr t) kvs"
    have a: "\<forall>k\<in>set skipped_keys. \<not> has_key k ?s"
      using ok by (auto simp: node_ok_def has_key_obj_set skipped_keys_def)
    have noenum: "\<not> has_key ''enum'' kvs"
      using ok that by (auto simp: node_ok_def)
    then have b: "has_key ''enum'' ?s \<longrightarrow> map_of ?s ''type'' = Some (JStr ''string'')"
      by (simp add: has_key_obj_set)
    have c: "has_key ''type'' ?s" by (simp add: has_key_obj_set)
    have "first_combinator ?s = first_combinator kvs"
      by (rule first_combinator_map_of) (simp_all add: map_of_obj_set)
    with ok have d: "first_combinator ?s = None" by (simp add: node_ok_def)
    have "\<forall>(k, v)\<in>set ?s. normal1 v"
      using vals set_obj_set [of "''type''" "JStr t" kvs] by auto
    with a b c d show ?thesis by (simp add: node_ok_def)
  qed
  with assms JObj show ?thesis by (simp add: fix_type_def)
qed (use assms in \<open>simp_all add: fix_type_def\<close>)

lemma normal1_object_schema: "normal1 object_schema"
  by (simp add: object_schema_def node_ok_def has_key_def skipped_keys_def looksObject_def
      looksArray_def first_combinator_def)

lemma preferred_branch_in: "bs \<noteq> [] \<Longrightarrow> preferred_branch bs \<in> set bs"
proof (cases "find is_object_typed bs")
  case None
  assume "bs \<noteq> []"
  with None show ?thesis by (cases bs) (auto simp: preferred_branch_def)
next
  case (Some b)
  then have "b \<in> set bs" by (auto simp: find_Some_iff)
  with Some show ?thesis by (simp add: preferred_branch_def)
qed

lemma normal1_coerce_empty: "normal1 b \<Longrightarrow> normal1 (coerce_empty b)"
  by (simp add: coerce_empty_def normal1_object_schema)

lemma collect_pairs_D:
  assumes "collect (map (\<lambda>(k, v). map_sum id (Pair k) (g k v)) kvs) = Inr copied"
  shows "map fst copied = map fst kvs"
    and "\<And>k' v'. (k', v') \<in> set copied \<Longrightarrow> \<exists>v. (k', v) \<in> set kvs \<and> g k' v = Inr v'"
proof -
  from collect_map_Inr_D [OF assms]
  have len: "length copied = length kvs"
    and nth: "\<And>i. i < length kvs \<Longrightarrow>
               (case kvs ! i of (k, v) \<Rightarrow> map_sum id (Pair k) (g k v)) = Inr (copied ! i)"
    by auto
  have el: "fst (copied ! i) = fst (kvs ! i) \<and> g (fst (kvs ! i)) (snd (kvs ! i)) = Inr (snd (copied ! i))"
    if "i < length kvs" for i
  proof -
    obtain a b where ab: "kvs ! i = (a, b)" by (cases "kvs ! i")
    with nth [OF that] have "map_sum id (Pair a) (g a b) = Inr (copied ! i)" by simp
    then obtain c where "g a b = Inr c" "copied ! i = (a, c)"
      by (cases "g a b") auto
    with ab show ?thesis by simp
  qed
  show "map fst copied = map fst kvs"
    using len el by (auto intro: nth_equalityI)
  fix k' v' assume "(k', v') \<in> set copied"
  then obtain i where i: "i < length copied" "copied ! i = (k', v')"
    by (auto simp: in_set_conv_nth)
  with len el [of i] have "fst (kvs ! i) = k'" "g k' (snd (kvs ! i)) = Inr v'" by auto
  moreover have "kvs ! i \<in> set kvs" using i len by simp
  ultimately show "\<exists>v. (k', v) \<in> set kvs \<and> g k' v = Inr v'"
    by (metis prod.collapse)
qed

lemma normal1_first_combinator:
  assumes "first_combinator s = Some (combKey, subs)" "\<forall>(k, v)\<in>set s. normal1 v"
  shows "\<forall>sub\<in>set subs. normal1 sub"
proof -
  from first_combinator_SomeD [OF assms(1)] obtain k where "map_of s k = Some (JArr subs)"
    by blast
  then have "(k, JArr subs) \<in> set s" by (rule map_of_SomeD)
  with assms(2) show ?thesis by auto
qed

lemma transform_normal:
  "transformJsonSchemaFields_at n env vis p x = Inr y \<Longrightarrow> normal1 y"
proof (induction n arbitrary: env vis p x y)
  case 0
  then show ?case
    by (auto simp: node_ok_def has_key_def looksObject_def looksArray_def first_combinator_def)
next
  case (Suc n)
  have empty: "normal1 (JObj [])"
    by (simp add: node_ok_def has_key_def looksObject_def looksArray_def first_combinator_def)
  show ?case
  proof (cases x)
    case (JArr xs)
    show ?thesis
    proof (cases "p \<in> set vis")
      case True
      with Suc.prems JArr empty show ?thesis by simp
    next
      case False
      with Suc.prems JArr obtain ys where
        c: "collect (map (\<lambda>(i, item).
                         transformJsonSchemaFields_at n env (p # vis) (p @ [Idx i]) item)
                       (enumerate_from0 xs)) = Inr ys" and y: "y = JArr ys"
        by (auto split: sum.splits)
      have "normal1 v" if "v \<in> set ys" for v
      proof -
        from that obtain i where i: "i < length ys" "ys ! i = v" by (auto simp: in_set_conv_nth)
        from collect_map_Inr_D [OF c] i
        have "(case enumerate_from0 xs ! i of (i, item) \<Rightarrow>
                 transformJsonSchemaFields_at n env (p # vis) (p @ [Idx i]) item) = Inr v"
          by auto
        then show ?thesis using Suc.IH by (cases "enumerate_from0 xs ! i") auto
      qed
      with y show ?thesis by simp
    qed
  next
    case (JObj kvs)
    show ?thesis
    proof (cases "p \<in> set vis")
      case True
      with Suc.prems JObj empty show ?thesis by simp
    next
      case False
      let ?env = "spread p ''definitions'' (map_of kvs ''definitions'')
                  @ spread p ''$defs'' (map_of kvs ''$defs'') @ env"
      show ?thesis
      proof (cases "truthy_opt (map_of kvs ''$ref'')")
        case True
        with Suc.prems JObj False empty Suc.IH show ?thesis
          by (auto simp: Let_def split: option.splits json.splits if_splits)
      next
        case noref: False
        let ?g = "\<lambda>key v. transformJsonSchemaFields_at n ?env (p # vis) (p @ [Key key]) v"
        let ?kept = "filter (\<lambda>(key, v). key \<notin> set skipped_keys) kvs"
        from Suc.prems obtain copied where
          c: "collect (map (\<lambda>(key, v). map_sum id (Pair key) (?g key v)) ?kept) = Inr copied"
          unfolding JObj transform_object_no_ref [OF noref False]
          by (auto simp: Let_def split: sum.splits)
        let ?t = "infer_type (enum_guard copied)"
        have keys: "\<forall>k\<in>set skipped_keys. \<not> has_key k copied"
        proof -
          have "fst ` set copied = fst ` set ?kept"
            using collect_pairs_D(1) [OF c] by (metis set_map)
          then show ?thesis by (auto simp: has_key_iff)
        qed
        have vals0: "\<forall>(k, v)\<in>set copied. normal1 v"
          using collect_pairs_D(2) [OF c] Suc.IH by fastforce
        have vals: "\<forall>(k, v)\<in>set ?t. normal1 v"
          using vals0 set_infer_type [of "enum_guard copied"] set_enum_guard [of copied]
          by fastforce
        show ?thesis
        proof (cases "first_combinator ?t")
          case None
          with Suc.prems c have "y = JObj ?t"
            unfolding JObj transform_object_no_ref [OF noref False]
            by (simp add: Let_def)
          with node_ok_transformedObj [OF keys None] vals show ?thesis by simp
        next
          case (Some cs)
          obtain combKey subs where cs: "cs = (combKey, subs)" by (cases cs)
          let ?subs = "map coerce_empty (filter (\<lambda>sub. \<not> isNullish sub) subs)"
          let ?h = "\<lambda>(i, sub). transformJsonSchemaFields_at n ?env (p # vis)
                               (p @ [Branch combKey i]) sub"
          have subs_normal: "\<forall>sub\<in>set ?subs. normal1 sub"
            using normal1_first_combinator [OF Some [unfolded cs] vals]
            by (auto simp: normal1_coerce_empty)
          have "\<exists>bs. collect (map ?h (enumerate_from0 ?subs)) = Inr bs"
          proof (rule collect_no_error)
            fix z assume zin: "z \<in> set (enumerate_from0 ?subs)"
            obtain i sub where z: "z = (i, sub)" by (cases z)
            with zin have "sub \<in> set ?subs" by (auto dest: enumerate_from0_D)
            with subs_normal have "ref_free sub" by (auto intro: normal1_ref_free)
            from transform_no_throw [OF this] z show "\<exists>y. ?h z = Inr y" by simp
          qed
          then obtain bs where bs: "collect (map ?h (enumerate_from0 ?subs)) = Inr bs" ..
          have bs_normal: "\<forall>b\<in>set bs. normal1 b"
          proof
            fix b assume "b \<in> set bs"
            then obtain i where i: "i < length bs" "bs ! i = b" by (auto simp: in_set_conv_nth)
            from collect_map_Inr_D [OF bs] i
            have "?h (enumerate_from0 ?subs ! i) = Inr b" by auto
            then show "normal1 b" using Suc.IH by (cases "enumerate_from0 ?subs ! i") auto
          qed
          from Suc.prems c Some cs bs
          have y: "y = fix_type (preferred_branch (if bs = [] then [object_schema] else bs))"
            unfolding JObj transform_object_no_ref [OF noref False]
            by (simp add: Let_def)
          have "normal1 (preferred_branch (if bs = [] then [object_schema] else bs))"
            using preferred_branch_in [of "if bs = [] then [object_schema] else bs"]
              bs_normal normal1_object_schema
            by (auto split: if_splits)
          with y show ?thesis by (simp add: normal1_fix_type)
        qed
      qed
    qed
  qed (use Suc.prems in auto)
qed


lemma fold_max_mono: "a \<le> b \<Longrightarrow> fold max xs (a::nat) \<le> fold max xs b"
  by (induction xs arbitrary: a b) (auto intro: max.mono)










subsection \<open>The normal form of the second pass\<close>

definition banned_keys :: "string list" where
  "banned_keys = ''title'' # ''const'' # ''any_of'' # ''one_of'' # ''all_of'' # unsupported_keys"









definition sanitize_body ::
  "(json \<Rightarrow> rat option) \<Rightarrow> (json \<Rightarrow> json) \<Rightarrow> (string \<times> json) list \<Rightarrow> (string \<times> json) list" where
  "sanitize_body C f node =
     constraints_step C
       (array_step C f
         (object_step f
           (infer_type2
             (type_step
               (combinator_step f ''allOf''
                 (combinator_step f ''oneOf''
                   (combinator_step f ''anyOf'' (prepare node))))))))"

lemma sanitize_object: "sanitize C (JObj node) = JObj (sanitize_body C (sanitize C) node)"
  by (simp add: sanitize_body_def)






























lemma map_of_number_key: "k' \<noteq> k \<Longrightarrow> map_of (number_key C k s) k' = map_of s k'"
  by (simp add: number_key_def map_of_obj_set map_of_obj_del split: option.splits)

lemma map_of_numeric_key: "k' \<noteq> k \<Longrightarrow> map_of (numeric_key C k s) k' = map_of s k'"
  by (simp add: numeric_key_def map_of_obj_set map_of_obj_del split: option.splits)



definition constraint_keys :: "string list" where
  "constraint_keys = [''minimum'', ''maximum'', ''exclusiveMinimum'', ''exclusiveMaximum'',
                      ''multipleOf'', ''minLength'', ''maxLength'']"

lemma constraints_step_unfold:
  "constraints_step C s =
     number_key C ''maxLength'' (number_key C ''minLength''
       (numeric_key C ''multipleOf'' (numeric_key C ''exclusiveMaximum''
         (numeric_key C ''exclusiveMinimum'' (numeric_key C ''maximum''
           (numeric_key C ''minimum'' s))))))"
  by (simp add: constraints_step_def)

lemma map_of_constraints_step:
  "k \<notin> set constraint_keys \<Longrightarrow> map_of (constraints_step C s) k = map_of s k"
  by (simp add: constraints_step_unfold constraint_keys_def map_of_number_key map_of_numeric_key)


lemma map_of_unique_items:
  "k \<noteq> ''uniqueItems'' \<Longrightarrow> map_of (unique_items s) k = map_of s k"
  by (simp add: unique_items_def map_of_obj_del split: option.splits json.splits)

lemma map_of_sanitize_items:
  "k \<noteq> ''items'' \<Longrightarrow> map_of (sanitize_items f s) k = map_of s k"
  by (simp add: sanitize_items_def map_of_obj_set split: option.splits)


lemma map_of_array_step:
  "k \<notin> {''items'', ''minItems'', ''maxItems'', ''uniqueItems''} \<Longrightarrow>
   map_of (array_step C f s) k = map_of s k"
  by (simp add: array_step_def map_of_unique_items map_of_number_key map_of_sanitize_items)



lemma has_key_via_map_of:
  "(\<And>k. k \<notin> K \<Longrightarrow> map_of s' k = map_of s k) \<Longrightarrow> k \<notin> K \<Longrightarrow> has_key k s' = has_key k s"
  by (simp add: has_key_def)




lemma object_step_cond:
  assumes "map_of s ''properties'' = Some (JObj ps) \<or> map_of s ''properties'' = Some (JArr xs)
           \<or> map_of s ''required'' = Some (JArr rs) \<or> has_key ''additionalProperties'' s"
  shows "object_step f s = sanitize_additional f (filter_required (sanitize_properties f s))"
  using assms by (auto simp: object_step_def)






lemma prepare_dropped:
  "k \<in> set unsupported_keys \<or> k = ''title'' \<Longrightarrow>
   map_of (const_to_enum (obj_del ''title'' (drop_keys unsupported_keys node))) k = None"
proof -
  assume a: "k \<in> set unsupported_keys \<or> k = ''title''"
  then have "k \<noteq> ''enum''" by (auto simp: unsupported_keys_def)
  with a show ?thesis
    by (auto simp: map_of_const_to_enum map_of_obj_del map_of_drop_keys)
qed

lemma prepare_banned:
  assumes "k \<in> set banned_keys"
  shows "map_of (prepare node) k = None"
proof -
  let ?s = "const_to_enum (obj_del ''title'' (drop_keys unsupported_keys node))"
  have c: "map_of ?s ''const'' = None"
    by (simp add: map_of_const_to_enum)
  from assms consider "k \<in> set unsupported_keys \<or> k = ''title''" | "k = ''const''"
    | "k = ''any_of''" | "k = ''one_of''" | "k = ''all_of''"
    by (auto simp: banned_keys_def)
  then show ?thesis
  proof cases
    case 1
    then have k: "k \<noteq> ''anyOf''" "k \<noteq> ''oneOf''" "k \<noteq> ''allOf''"
      by (auto simp: unsupported_keys_def)
    from prepare_dropped [OF 1] k show ?thesis
      by (simp add: prepare_def map_of_rename_key)
  next
    case 2
    with c show ?thesis by (simp add: prepare_def map_of_rename_key)
  next
    case 3
    then show ?thesis by (simp add: prepare_def map_of_rename_key)
  next
    case 4
    then show ?thesis by (simp add: prepare_def map_of_rename_key)
  next
    case 5
    then show ?thesis by (simp add: prepare_def map_of_rename_key)
  qed
qed
























subsection \<open>The tool parameters in the translator, and the two passes in a row\<close>

text \<open>
  In \<^verbatim>\<open>transformOpenAiToGemini\<close> the parameters of a tool are cloned, \<^verbatim>\<open>$schema\<close> is deleted
  at the root, \<^verbatim>\<open>sanitizeToolParameters\<close> runs, and the root gets \<^verbatim>\<open>type: 'object'\<close> when it
  has no truthy type and looks like an object. Parameters that are falsy stay
  \<^verbatim>\<open>undefined\<close>, the value \<open>None\<close>. The test \<^verbatim>\<open>'additionalProperties' in parameters\<close> throws a
  \<^verbatim>\<open>TypeError\<close> on a value that is no object; it is reached by every truthy primitive, whose
  other tests are all \<^verbatim>\<open>undefined\<close>.
\<close>

definition defensive_root_type :: "json \<Rightarrow> js_error + json" where
  "defensive_root_type parameters =
     (case parameters of
        JObj kvs \<Rightarrow>
          Inr (if \<not> truthy_opt (map_of kvs ''type'')
                  \<and> (looksObject kvs \<or> has_key ''additionalProperties'' kvs)
               then JObj (obj_set ''type'' (JStr ''object'') kvs) else parameters)
      | JArr xs \<Rightarrow> Inr parameters
      | _ \<Rightarrow> if truthy parameters then Inl TypeError else Inr parameters)"

definition delete_schema_key :: "json \<Rightarrow> json" where
  "delete_schema_key parameters =
     (case parameters of JObj kvs \<Rightarrow> JObj (obj_del ''$schema'' kvs) | _ \<Rightarrow> parameters)"

definition translator_parameters :: "(json \<Rightarrow> rat option) \<Rightarrow> json \<Rightarrow> js_error + json option" where
  "translator_parameters C parameters =
     (if truthy parameters
      then map_sum id Some (defensive_root_type (sanitize C (delete_schema_key parameters)))
      else Inr None)"

text \<open>The route first, the translator on what the route leaves in the request body.\<close>

definition tool_parameters :: "(json \<Rightarrow> rat option) \<Rightarrow> json \<Rightarrow> js_error + json option" where
  "tool_parameters C parameters =
     (case route_parameters parameters of
        Inl e \<Rightarrow> Inl e
      | Inr p \<Rightarrow> translator_parameters C p)"

text \<open>A \<^verbatim>\<open>Number\<close> that converts nothing, for the examples without numeric keywords.\<close>

definition no_coercion :: "json \<Rightarrow> rat option" where
  "no_coercion v = None"









text \<open>Objects nested through \<^verbatim>\<open>properties\<close>, two levels of depth for each round.\<close>

fun nested :: "nat \<Rightarrow> json \<Rightarrow> json" where
  "nested 0 x = x"
| "nested (Suc n) x =
     JObj [(''properties'', JObj [(''a'', nested n x)]), (''type'', JStr ''object'')]"



definition deep_twice :: json where
  "deep_twice = nested 10 (JObj [(''properties'', JObj []), (''type'', JObj [])])"








subsection \<open>The enum guard\<close>

text \<open>Every node that carries \<^verbatim>\<open>enum\<close> has the type \<^verbatim>\<open>'string'\<close>, at every depth.\<close>

fun enum_guarded :: "json \<Rightarrow> bool" where
  "enum_guarded (JObj kvs) =
     ((has_key ''enum'' kvs \<longrightarrow> map_of kvs ''type'' = Some (JStr ''string''))
      \<and> (\<forall>(k, v)\<in>set kvs. enum_guarded v))"
| "enum_guarded (JArr xs) = (\<forall>x\<in>set xs. enum_guarded x)"
| "enum_guarded _ = True"

lemma normal1_enum_guarded: "normal1 y \<Longrightarrow> enum_guarded y"
  by (induction y rule: enum_guarded.induct) (auto simp: node_ok_def)

lemma enum_guarded_root_object_type:
  assumes "enum_guarded y"
  shows "enum_guarded (root_object_type y)"
proof (cases y)
  case (JObj kvs)
  show ?thesis
  proof (cases "\<not> truthy_opt (map_of kvs ''type'') \<and> looksObject kvs")
    case True
    let ?s = "obj_set ''type'' (JStr ''object'') kvs"
    from True assms JObj have ne: "\<not> has_key ''enum'' kvs" by auto
    then have "\<not> has_key ''enum'' ?s" by (simp add: has_key_obj_set)
    moreover have "enum_guarded v" if "(k, v) \<in> set ?s" for k v
    proof -
      from that set_obj_set [of "''type''" "JStr ''object''" kvs]
      have "(k, v) = (''type'', JStr ''object'') \<or> (k, v) \<in> set kvs" by auto
      with assms JObj show ?thesis by auto
    qed
    ultimately have "enum_guarded (JObj ?s)" by auto
    with True show ?thesis by (simp add: JObj root_object_type_def)
  next
    case False
    with assms show ?thesis by (auto simp: JObj root_object_type_def)
  qed
qed (use assms in \<open>simp_all add: root_object_type_def\<close>)

lemma route_parameters_enum_guarded:
  assumes "route_parameters x = Inr y"
  shows "enum_guarded y"
proof (cases "truthy x")
  case True
  with assms obtain t where t: "transformJsonSchemaFields x = Inr t" "y = root_object_type t"
    by (cases "transformJsonSchemaFields x") (auto simp: route_parameters_def)
  from t(1) have "normal1 t" unfolding transformJsonSchemaFields_def by (rule transform_normal)
  then show ?thesis unfolding t(2)
    by (intro enum_guarded_root_object_type normal1_enum_guarded)
next
  case False
  with assms have "y = x" by (simp add: route_parameters_def)
  with False show ?thesis by (cases x) auto
qed

lemma sanitize_const:
  assumes "map_of node ''const'' = Some v"
  shows "get (sanitize C (JObj node)) ''enum'' = Some (JArr [v])"
    and "get (sanitize C (JObj node)) ''const'' = None"
proof -
  let ?d = "obj_del ''title'' (drop_keys unsupported_keys node)"
  have c: "map_of ?d ''const'' = Some v"
    using assms by (simp add: map_of_obj_del map_of_drop_keys unsupported_keys_def)
  have e: "map_of (const_to_enum ?d) ''enum'' = Some (JArr [v])"
    by (simp add: const_to_enum_def c map_of_obj_set)
  have pe: "map_of (prepare node) ''enum'' = Some (JArr [v])"
    by (simp add: prepare_def map_of_rename_key e)
  have pc: "map_of (prepare node) ''const'' = None"
    by (rule prepare_banned) (simp add: banned_keys_def)
  have frame: "map_of (sanitize_body C f node) k = map_of (prepare node) k"
    if "k = ''enum'' \<or> k = ''const''" for k f
    using that
    by (auto simp: sanitize_body_def map_of_constraints_step constraint_keys_def
        map_of_array_step map_of_object_step map_of_infer_type2 map_of_type_step
        map_of_combinator_step)
  show "get (sanitize C (JObj node)) ''enum'' = Some (JArr [v])"
    by (simp only: sanitize_object get.simps frame pe simp_thms)
  show "get (sanitize C (JObj node)) ''const'' = None"
    by (simp only: sanitize_object get.simps frame pc simp_thms)
qed

definition const_schema :: json where
  "const_schema =
     JObj [(''type'', JStr ''object''),
           (''properties'', JObj [(''n'', JObj [(''type'', JStr ''number''), (''const'', JNum 3)])])]"

definition const_schema_result :: json where
  "const_schema_result =
     JObj [(''type'', JStr ''object''),
           (''properties'',
            JObj [(''n'', JObj [(''type'', JStr ''number''), (''enum'', JArr [JNum 3])])])]"

text \<open>
  C8. The guard is in the pass of the route only; its comment says that Gemini allows
  \<^verbatim>\<open>enum\<close> for parameters of type string only. The pass of the translator turns a \<^verbatim>\<open>const\<close> into
  an \<^verbatim>\<open>enum\<close> afterwards and has no guard. So the parameters
  \<^verbatim>\<open>{type: 'object', properties: {n: {type: 'number', const: 3}}}\<close> pass the route as they are,
  and they leave the translator with the property \<^verbatim>\<open>n: {type: 'number', enum: [3]}\<close>: the result
  carries \<^verbatim>\<open>enum\<close> beside the type \<^verbatim>\<open>'number'\<close>, which the guard of the first pass is there to
  exclude. The same happens at the root, for \<^verbatim>\<open>{type: 'number', const: 3}\<close>.
\<close>

theorem enum_beside_number_type:
  "route_parameters const_schema = Inr const_schema
   \<and> tool_parameters no_coercion const_schema = Inr (Some const_schema_result)
   \<and> \<not> enum_guarded const_schema_result
   \<and> tool_parameters no_coercion (JObj [(''type'', JStr ''number''), (''const'', JNum 3)])
       = Inr (Some (JObj [(''type'', JStr ''number''), (''enum'', JArr [JNum 3])]))"
  by code_simp

subsection \<open>The collapse of a combinator\<close>











text \<open>
  The collapse in the words of the specification: the branches that are null-only go, an
  empty object becomes \<^verbatim>\<open>{type: 'object'}\<close>, the rest is sanitised, and the node is the first
  branch of type \<^verbatim>\<open>'object'\<close>, else the first branch, else \<^verbatim>\<open>{type: 'object'}\<close>.
\<close>

definition spec_null_only :: "json \<Rightarrow> bool" where
  "spec_null_only b =
     (get b ''type'' = Some (JStr ''null'') \<or> get b ''enum'' = Some (JArr [JNull]))"

definition spec_preferred :: "json list \<Rightarrow> json" where
  "spec_preferred bs =
     (case filter (\<lambda>b. get b ''type'' = Some (JStr ''object'')) bs of
        b # _ \<Rightarrow> b
      | [] \<Rightarrow> (case bs of b # _ \<Rightarrow> b | [] \<Rightarrow> JObj [(''type'', JStr ''object'')]))"

definition spec_collapse :: "(json \<Rightarrow> json) \<Rightarrow> json list \<Rightarrow> json" where
  "spec_collapse san bs =
     spec_preferred
       (map san (map (\<lambda>b. if b = JObj [] then JObj [(''type'', JStr ''object'')] else b)
                     (filter (\<lambda>b. \<not> spec_null_only b) bs)))"







definition null_enum_branches :: "json list" where
  "null_enum_branches = [JObj [(''enum'', JArr [JNull])], JObj [(''type'', JStr ''string'')]]"




text \<open>
  Apart from that: the helper \<^verbatim>\<open>isNullish\<close> of the first pass tests for \<^verbatim>\<open>enum: [null]\<close>, but it
  is applied to branches that the loop over the keys has transformed already. There the
  guard has taken the \<^verbatim>\<open>enum\<close> of \<^verbatim>\<open>{enum: [null]}\<close> away, the branch is \<^verbatim>\<open>{}\<close>, it is kept as
  \<^verbatim>\<open>{type: 'object'}\<close> and preferred to \<^verbatim>\<open>{type: 'string'}\<close>.
\<close>

lemma null_enum_branch_kept:
  "tool_parameters no_coercion (JObj [(''anyOf'', JArr null_enum_branches)])
     = Inr (Some (JObj [(''type'', JStr ''object'')]))
   \<and> spec_collapse (sanitize no_coercion) null_enum_branches = JObj [(''type'', JStr ''string'')]"
  by code_simp

section \<open>The handler of \<^verbatim>\<open>POST /v1/chat/completions\<close>, from its start to the model validation\<close>

text \<open>
  Before its \<^verbatim>\<open>try\<close> block the handler cleans \<^verbatim>\<open>req.body.tools\<close>. What the clean-up writes
  into the body, the sanitised names and the transformed parameters, is not read before the
  validation is over; what matters to the validation is whether the clean-up returns. It
  throws a \<^verbatim>\<open>TypeError\<close>

  \<^item> when \<^verbatim>\<open>tools\<close> is truthy and no array (\<^verbatim>\<open>req.body.tools.map\<close> is no function),

  \<^item> when an entry of \<^verbatim>\<open>tools\<close> is \<^verbatim>\<open>null\<close> (\<^verbatim>\<open>tool.function_declarations\<close>),

  \<^item> when an entry of an array \<^verbatim>\<open>function_declarations\<close> is \<^verbatim>\<open>null\<close> (\<^verbatim>\<open>fnDecl.name = unique\<close>),

  \<^item> when \<^verbatim>\<open>transformJsonSchemaFields\<close> throws on truthy \<^verbatim>\<open>parameters\<close> of a declaration or
    of a truthy \<^verbatim>\<open>tool.function\<close>.

  Nothing else throws: \<^verbatim>\<open>sanitizeFunctionName\<close> catches what it raises, the loop that makes
  a name unique ends because each round tries a name with another suffix, the assignment of
  a property to a number, string or boolean does nothing in code that is not strict, and the
  root type is set inside a \<^verbatim>\<open>try\<close>.
\<close>

definition parameters_cleanup_throws :: "json \<Rightarrow> bool" where
  "parameters_cleanup_throws decl =
     (case get decl ''parameters'' of
        Some parameters \<Rightarrow> truthy parameters \<and> transformJsonSchemaFields parameters = Inl TypeError
      | None \<Rightarrow> False)"

definition declaration_throws :: "json \<Rightarrow> bool" where
  "declaration_throws fnDecl = (fnDecl = JNull \<or> parameters_cleanup_throws fnDecl)"

definition tool_throws :: "json \<Rightarrow> bool" where
  "tool_throws tool =
     (tool = JNull
      \<or> (case get tool ''function_declarations'' of
            Some (JArr decls) \<Rightarrow> list_ex declaration_throws decls
          | _ \<Rightarrow> False)
      \<or> (case get tool ''function'' of
            Some f \<Rightarrow> truthy f \<and> parameters_cleanup_throws f
          | None \<Rightarrow> False))"

definition tools_cleanup_throws :: "json option \<Rightarrow> bool" where
  "tools_cleanup_throws tools =
     (case tools of
        None \<Rightarrow> False
      | Some t \<Rightarrow> truthy t \<and> (case t of JArr ts \<Rightarrow> list_ex tool_throws ts | _ \<Rightarrow> True))"

text \<open>
  The handler up to the end of the validation: the exception of the clean-up, which leaves
  the handler before it has sent anything, or the outcome of the validation of
  \<^verbatim>\<open>req.body.model\<close>. A body that is no object has no \<^verbatim>\<open>tools\<close> and no \<^verbatim>\<open>model\<close>.
\<close>

definition chat_handler_start :: "config \<Rightarrow> json \<Rightarrow> js_error + validation" where
  "chat_handler_start cfg body =
     (if tools_cleanup_throws (get body ''tools'') then Inl TypeError
      else Inr (model_validation cfg (get body ''model'')))"

definition ref_property_tools :: json where
  "ref_property_tools =
     JArr [JObj [(''type'', JStr ''function''),
                 (''function'',
                  JObj [(''name'', JStr ''lookup''),
                        (''parameters'',
                         JObj [(''type'', JStr ''object''),
                               (''properties'',
                                JObj [(''$ref'', JObj [(''type'', JStr ''string'')])])])])]]"


text \<open>
  A schema with a property named \<^verbatim>\<open>$ref\<close>: the transformation takes the property's schema
  for a reference, \<^verbatim>\<open>refPath.startsWith\<close> throws, and the handler is left before the
  validation, whatever the model is.
\<close>

lemma cleanup_throws_before_validation:
  "chat_handler_start cfg (JObj [(''model'', m), (''tools'', ref_property_tools)]) = Inl TypeError"
proof -
  have "tools_cleanup_throws (Some ref_property_tools)" by code_simp
  then show ?thesis by (simp add: chat_handler_start_def)
qed




section \<open>The stream chunker of \<^verbatim>\<open>POST /v1/chat/completions\<close>\<close>

text \<open>
  \<^verbatim>\<open>streamTransformer\<close> keeps a \<^verbatim>\<open>buffer\<close> between its calls; every call of \<^verbatim>\<open>transform\<close>
  appends the decoded chunk and scans the buffer from its first character with fresh
  locals. A chunk is here the string that \<^verbatim>\<open>decoder.decode(chunk, {stream: true})\<close> returns.
  The scan treats four characters in a way of their own, and every other character alike.
  What is modelled is the extraction: the strings \<^verbatim>\<open>jsonStr\<close> that the scan cuts out of the
  buffer, in the order in which it hands them on (to \<^verbatim>\<open>JSON.parse\<close> and
  \<^verbatim>\<open>processGeminiObject\<close>, or to the test for the \<^verbatim>\<open>done\<close> marker and \<^verbatim>\<open>this.push\<close>).
\<close>

text \<open>The locals of a scan; \<open>None\<close> is the index \<^verbatim>\<open>-1\<close>.\<close>

record scan =
  startPos :: "nat option"
  endPos :: "nat option"
  bracketDepth :: int
  inString :: bool
  escapeNext :: bool

definition scan0 :: scan where
  "scan0 = \<lparr>startPos = None, endPos = None, bracketDepth = 0, inString = False,
            escapeNext = False\<rparr>"

text \<open>\<^verbatim>\<open>buffer.substring(from, to)\<close> for \<open>from \<le> to\<close>.\<close>

definition substring :: "string \<Rightarrow> nat \<Rightarrow> nat \<Rightarrow> string" where
  "substring s from to = take (to - from) (drop from s)"

subsection \<open>The Gemini branch\<close>

text \<open>
  One round of the \<^verbatim>\<open>for\<close> loop, at index \<open>i\<close> with \<^verbatim>\<open>char = buffer[i]\<close>. The branches for
  \<^verbatim>\<open>[\<close>, \<^verbatim>\<open>]\<close> and the comma only \<^verbatim>\<open>continue\<close>, as the end of the loop body does for every
  other character.
\<close>

definition gemini_round :: "string \<Rightarrow> scan \<times> string list \<Rightarrow> nat \<times> char \<Rightarrow> scan \<times> string list" where
  "gemini_round buffer state ic =
     (case (state, ic) of ((st, found), (i, char)) \<Rightarrow>
        if inString st then
          (if escapeNext st then (st\<lparr>escapeNext := False\<rparr>, found)
           else if char = CHR 0x5C then (st\<lparr>escapeNext := True\<rparr>, found)
           else if char = CHR 0x22 then (st\<lparr>inString := False\<rparr>, found)
           else (st, found))
        else if char = CHR ''{'' then
          (st\<lparr>startPos := (if bracketDepth st = 0 then Some i else startPos st),
              bracketDepth := bracketDepth st + 1\<rparr>, found)
        else if char = CHR ''}'' then
          (case startPos st of
             Some s \<Rightarrow>
               if bracketDepth st - 1 = 0
               then (st\<lparr>bracketDepth := 0, endPos := Some i, startPos := None\<rparr>,
                     found @ [substring buffer s (i + 1)])
               else (st\<lparr>bracketDepth := bracketDepth st - 1\<rparr>, found)
           | None \<Rightarrow> (st\<lparr>bracketDepth := bracketDepth st - 1\<rparr>, found))
        else if char = CHR 0x22 then (st\<lparr>inString := True\<rparr>, found)
        else (st, found))"

text \<open>The part of the buffer that is kept for the next call.\<close>

definition gemini_keep :: "string \<Rightarrow> scan \<Rightarrow> string" where
  "gemini_keep buffer st =
     (case startPos st of
        Some s \<Rightarrow>
          (case endPos st of
             Some e \<Rightarrow> if s < e then drop (e + 1) buffer else drop s buffer
           | None \<Rightarrow> drop s buffer)
      | None \<Rightarrow> [])"

text \<open>\<^verbatim>\<open>transform\<close>: the new buffer and the strings found, in order.\<close>

definition gemini_transform :: "string \<Rightarrow> string \<Rightarrow> string \<times> string list" where
  "gemini_transform buffer0 chunk =
     (let buffer = buffer0 @ chunk;
          (st, found) = foldl (gemini_round buffer) (scan0, []) (zip [0..<length buffer] buffer)
      in (gemini_keep buffer st, found))"

text \<open>\<^verbatim>\<open>flush\<close>: a buffer that is not blank is handed to \<^verbatim>\<open>JSON.parse\<close> as a whole.\<close>

definition gemini_flush :: "string \<Rightarrow> string list" where
  "gemini_flush buffer = (if trim buffer \<noteq> [] then [buffer] else [])"

subsection \<open>The Vertex branch\<close>

text \<open>
  The loop of the Vertex branch cuts the buffer after every string it finds and starts
  again at index 0, or leaves the loop when the buffer is used up. The loop of \<^verbatim>\<open>flush\<close>
  is the same but for \<^verbatim>\<open>startPos\<close>, which only the loop of \<^verbatim>\<open>transform\<close> sets back to
  \<^verbatim>\<open>-1\<close>: \<open>reset\<close> tells the two apart.
\<close>

function vertex_loop :: "bool \<Rightarrow> string \<Rightarrow> nat \<Rightarrow> scan \<Rightarrow> string list \<Rightarrow> string \<times> string list" where
  "vertex_loop reset buffer i st found =
     (if i < length buffer then
        (let char = buffer ! i in
         if inString st then
           (if escapeNext st then vertex_loop reset buffer (Suc i) (st\<lparr>escapeNext := False\<rparr>) found
            else if char = CHR 0x5C
            then vertex_loop reset buffer (Suc i) (st\<lparr>escapeNext := True\<rparr>) found
            else if char = CHR 0x22
            then vertex_loop reset buffer (Suc i) (st\<lparr>inString := False\<rparr>) found
            else vertex_loop reset buffer (Suc i) st found)
         else if char = CHR ''{'' then
           vertex_loop reset buffer (Suc i)
             (st\<lparr>startPos := (if bracketDepth st = 0 then Some i else startPos st),
                 bracketDepth := bracketDepth st + 1\<rparr>) found
         else if char = CHR ''}'' then
           (case startPos st of
              Some s \<Rightarrow>
                if bracketDepth st - 1 = 0
                then (let st' = st\<lparr>bracketDepth := 0, endPos := Some i,
                                     startPos := (if reset then None else startPos st)\<rparr>;
                          found' = found @ [substring buffer s (i + 1)]
                      in if i + 1 < length buffer
                         then vertex_loop reset (drop (i + 1) buffer) 0 st' found'
                         else ([], found'))
                else vertex_loop reset buffer (Suc i) (st\<lparr>bracketDepth := bracketDepth st - 1\<rparr>) found
            | None \<Rightarrow>
                vertex_loop reset buffer (Suc i) (st\<lparr>bracketDepth := bracketDepth st - 1\<rparr>) found)
         else if char = CHR 0x22
         then vertex_loop reset buffer (Suc i) (st\<lparr>inString := True\<rparr>) found
         else vertex_loop reset buffer (Suc i) st found)
      else (buffer, found))"
  by pat_completeness auto
termination
  by (relation "measure (\<lambda>(reset, buffer, i, st, found). length buffer - i)") auto

declare vertex_loop.simps [simp del]

definition vertex_transform :: "string \<Rightarrow> string \<Rightarrow> string \<times> string list" where
  "vertex_transform buffer0 chunk = vertex_loop True (buffer0 @ chunk) 0 scan0 []"

definition vertex_flush :: "string \<Rightarrow> string list" where
  "vertex_flush buffer =
     (if trim buffer \<noteq> [] then snd (vertex_loop False buffer 0 scan0 []) else [])"

subsection \<open>A stream of chunks\<close>

text \<open>The calls of \<^verbatim>\<open>transform\<close>, one for each chunk, and \<^verbatim>\<open>flush\<close> at the end of the stream.\<close>

definition feed ::
  "(string \<Rightarrow> string \<Rightarrow> string \<times> string list) \<Rightarrow> string \<times> string list \<Rightarrow> string
     \<Rightarrow> string \<times> string list" where
  "feed transform state chunk =
     (case state of (buffer, found) \<Rightarrow>
        (case transform buffer chunk of (buffer', found') \<Rightarrow> (buffer', found @ found')))"

definition gemini_chunker :: "string list \<Rightarrow> string list" where
  "gemini_chunker chunks =
     (case foldl (feed gemini_transform) ([], []) chunks of
        (buffer, found) \<Rightarrow> found @ gemini_flush buffer)"

definition vertex_chunker :: "string list \<Rightarrow> string list" where
  "vertex_chunker chunks =
     (case foldl (feed vertex_transform) ([], []) chunks of
        (buffer, found) \<Rightarrow> found @ vertex_flush buffer)"

subsection \<open>The scan as a machine on characters\<close>

text \<open>
  The same scan without indices: the machine reads one character after the other and
  carries the characters of the object it is assembling instead of the position where the
  object began.
\<close>

record machine =
  m_acc :: "string option"
  m_depth :: int
  m_quoted :: bool
  m_escaped :: bool

definition machine0 :: machine where
  "machine0 = \<lparr>m_acc = None, m_depth = 0, m_quoted = False, m_escaped = False\<rparr>"

definition mstep :: "machine \<times> string list \<Rightarrow> char \<Rightarrow> machine \<times> string list" where
  "mstep s c =
     (case s of (a, found) \<Rightarrow>
        let grow = map_option (\<lambda>xs. xs @ [c]) (m_acc a) in
        if m_quoted a then
          (if m_escaped a then (a\<lparr>m_acc := grow, m_escaped := False\<rparr>, found)
           else if c = CHR 0x5C then (a\<lparr>m_acc := grow, m_escaped := True\<rparr>, found)
           else if c = CHR 0x22 then (a\<lparr>m_acc := grow, m_quoted := False\<rparr>, found)
           else (a\<lparr>m_acc := grow\<rparr>, found))
        else if c = CHR ''{'' then
          (a\<lparr>m_acc := (if m_depth a = 0 then Some [c] else grow), m_depth := m_depth a + 1\<rparr>,
           found)
        else if c = CHR ''}'' then
          (case m_acc a of
             Some xs \<Rightarrow>
               if m_depth a - 1 = 0 then (a\<lparr>m_acc := None, m_depth := 0\<rparr>, found @ [xs @ [c]])
               else (a\<lparr>m_acc := grow, m_depth := m_depth a - 1\<rparr>, found)
           | None \<Rightarrow> (a\<lparr>m_depth := m_depth a - 1\<rparr>, found))
        else if c = CHR 0x22 then (a\<lparr>m_acc := grow, m_quoted := True\<rparr>, found)
        else (a\<lparr>m_acc := grow\<rparr>, found))"

definition mrun :: "machine \<times> string list \<Rightarrow> string \<Rightarrow> machine \<times> string list" where
  "mrun s cs = foldl mstep s cs"

definition after :: "machine \<Rightarrow> string \<Rightarrow> machine" where
  "after a cs = fst (mrun (a, []) cs)"

definition outs :: "machine \<Rightarrow> string \<Rightarrow> string list" where
  "outs a cs = snd (mrun (a, []) cs)"

lemma mrun_Nil [simp]: "mrun s [] = s"
  by (simp add: mrun_def)

lemma mrun_Cons [simp]: "mrun s (c # cs) = mrun (mstep s c) cs"
  by (simp add: mrun_def)

lemma mrun_append: "mrun s (xs @ ys) = mrun (mrun s xs) ys"
  by (simp add: mrun_def)

lemma mstep_found: "mstep (a, found) c = (fst (mstep (a, []) c), found @ snd (mstep (a, []) c))"
  by (simp add: mstep_def Let_def split: option.splits)

lemma mrun_found: "mrun (a, found) cs = (after a cs, found @ outs a cs)"
proof (induction cs arbitrary: a found)
  case Nil
  show ?case by (simp add: after_def outs_def)
next
  case (Cons c cs)
  obtain a' o' where s: "mstep (a, []) c = (a', o')" by (cases "mstep (a, []) c")
  have "mrun (a, found) (c # cs) = mrun (a', found @ o') cs"
    using mstep_found [of a found c] s by simp
  also have "\<dots> = (after a' cs, (found @ o') @ outs a' cs)" by (rule Cons.IH)
  finally have l: "mrun (a, found) (c # cs) = (after a' cs, found @ o' @ outs a' cs)" by simp
  have "mrun (a, []) (c # cs) = mrun (a', o') cs" using s by simp
  also have "\<dots> = (after a' cs, o' @ outs a' cs)" by (rule Cons.IH)
  finally have "after a (c # cs) = after a' cs" "outs a (c # cs) = o' @ outs a' cs"
    by (simp_all add: after_def outs_def)
  with l show ?case by simp
qed

lemma after_append: "after a (xs @ ys) = after (after a xs) ys"
  and outs_append: "outs a (xs @ ys) = outs a xs @ outs (after a xs) ys"
proof -
  have "mrun (a, []) (xs @ ys) = mrun (after a xs, outs a xs) ys"
    by (simp add: mrun_append mrun_found [of a "[]" xs])
  also have "\<dots> = (after (after a xs) ys, outs a xs @ outs (after a xs) ys)"
    by (rule mrun_found)
  finally show "after a (xs @ ys) = after (after a xs) ys"
    and "outs a (xs @ ys) = outs a xs @ outs (after a xs) ys"
    by (simp_all add: after_def outs_def)
qed

lemma after_Nil [simp]: "after a [] = a"
  and outs_Nil [simp]: "outs a [] = []"
  by (simp_all add: after_def outs_def)

lemma after_single: "after a [c] = fst (mstep (a, []) c)"
  and outs_single: "outs a [c] = snd (mstep (a, []) c)"
  by (simp_all add: after_def outs_def)

text \<open>What holds of every state the machine reaches.\<close>

definition sound :: "machine \<Rightarrow> bool" where
  "sound a = ((\<not> m_quoted a \<longrightarrow> \<not> m_escaped a) \<and> (m_acc a \<noteq> None \<longrightarrow> 1 \<le> m_depth a))"

lemma sound_machine0: "sound machine0"
  by (simp add: sound_def machine0_def)

lemma sound_step: "sound a \<Longrightarrow> sound (fst (mstep (a, found) c))"
  by (auto simp: sound_def mstep_def Let_def split: option.splits)

lemma sound_after: "sound a \<Longrightarrow> sound (after a cs)"
proof (induction cs arbitrary: a)
  case Nil
  then show ?case by simp
next
  case (Cons c cs)
  have "after a (c # cs) = after (after a [c]) cs" using after_append [of a "[c]" cs] by simp
  moreover have "sound (after a [c])" using sound_step [OF Cons.prems] by (simp add: after_single)
  ultimately show ?case using Cons.IH by simp
qed

text \<open>Scanning the characters of the object in progress again, from the start, leads to
  the same state.\<close>

definition restartable :: "machine \<Rightarrow> bool" where
  "restartable a = (case m_acc a of Some xs \<Rightarrow> mrun (machine0, []) xs = (a, []) | None \<Rightarrow> True)"

lemma restartable_step:
  assumes "sound a" "restartable a"
  shows "restartable (fst (mstep (a, []) c))"
proof (cases "m_acc a")
  case None
  with assms(1) show ?thesis
    by (auto simp: restartable_def mstep_def Let_def sound_def machine0_def)
next
  case (Some xs)
  with assms(2) have r: "mrun (machine0, []) xs = (a, [])" by (simp add: restartable_def)
  from Some assms(1) have d: "1 \<le> m_depth a" by (simp add: sound_def)
  show ?thesis
  proof (cases "m_acc (fst (mstep (a, []) c))")
    case None
    then show ?thesis by (simp add: restartable_def)
  next
    case (Some ys)
    with \<open>m_acc a = Some xs\<close> d have ys: "ys = xs @ [c]" and o: "snd (mstep (a, []) c) = []"
      by (auto simp: mstep_def Let_def split: if_splits)
    have "mrun (machine0, []) (xs @ [c]) = mstep (a, []) c"
      by (simp add: mrun_append r)
    with o have "mrun (machine0, []) (xs @ [c]) = (fst (mstep (a, []) c), [])"
      by (metis prod.collapse)
    with Some ys show ?thesis by (simp add: restartable_def)
  qed
qed

lemma restartable_after: "restartable (after machine0 cs)"
proof (induction cs rule: rev_induct)
  case Nil
  show ?case by (simp add: restartable_def machine0_def)
next
  case (snoc c cs)
  have "after machine0 (cs @ [c]) = fst (mstep (after machine0 cs, []) c)"
    by (simp add: after_append after_single)
  moreover have "sound (after machine0 cs)" by (rule sound_after [OF sound_machine0])
  ultimately show ?case using restartable_step [OF _ snoc.IH] by simp
qed

text \<open>What \<^verbatim>\<open>transform\<close> of the Gemini branch keeps, in terms of the machine.\<close>

definition residue :: "machine \<Rightarrow> string" where
  "residue a = (case m_acc a of Some xs \<Rightarrow> xs | None \<Rightarrow> [])"

subsection \<open>The loop of the Gemini branch and the machine\<close>

definition agrees :: "string \<Rightarrow> nat \<Rightarrow> scan \<Rightarrow> machine \<Rightarrow> bool" where
  "agrees buffer k st a =
     (bracketDepth st = m_depth a \<and> inString st = m_quoted a \<and> escapeNext st = m_escaped a
      \<and> (case startPos st of
            None \<Rightarrow> m_acc a = None
          | Some s \<Rightarrow> s \<le> k \<and> m_acc a = Some (substring buffer s k)))"

lemma substring_Suc:
  "s \<le> k \<Longrightarrow> k < length buffer \<Longrightarrow> substring buffer s (Suc k) = substring buffer s k @ [buffer ! k]"
  by (simp add: substring_def Suc_diff_le take_Suc_conv_app_nth)

lemma substring_one: "k < length buffer \<Longrightarrow> substring buffer k (Suc k) = [buffer ! k]"
  by (simp add: substring_def take_Suc_conv_app_nth)

lemma substring_end: "substring buffer s (length buffer) = drop s buffer"
  by (simp add: substring_def)

lemma gemini_round_agrees:
  assumes "k < length buffer" "agrees buffer k st a"
  shows "\<exists>st' a' found'.
           gemini_round buffer (st, found) (k, buffer ! k) = (st', found')
           \<and> mstep (a, found) (buffer ! k) = (a', found')
           \<and> agrees buffer (Suc k) st' a'"
proof (cases "startPos st")
  case None
  with assms show ?thesis
    by (auto simp: agrees_def gemini_round_def mstep_def Let_def substring_one)
next
  case (Some s)
  with assms(2) have s: "s \<le> k" and acc: "m_acc a = Some (substring buffer s k)"
    by (simp_all add: agrees_def)
  note ss = substring_Suc [OF s assms(1)]
  from assms(2) Some acc show ?thesis
    by (auto simp: agrees_def gemini_round_def mstep_def Let_def ss substring_one [OF assms(1)] s
        le_SucI)
qed

text \<open>In the Gemini branch the end of the last object lies before the start of the next.\<close>

definition ordered :: "nat \<Rightarrow> scan \<Rightarrow> bool" where
  "ordered k st =
     ((case endPos st of Some e \<Rightarrow> e < k | None \<Rightarrow> True)
      \<and> (case startPos st of
            Some s \<Rightarrow> (case endPos st of Some e \<Rightarrow> e < s | None \<Rightarrow> True)
          | None \<Rightarrow> True))"

lemma gemini_round_ordered:
  assumes "ordered k st" "agrees buffer k st a" "sound a"
  shows "ordered (Suc k) (fst (gemini_round buffer (st, found) (k, c)))"
proof -
  have d: "startPos st \<noteq> None \<Longrightarrow> bracketDepth st \<noteq> 0"
    using assms(2,3) by (auto simp: agrees_def sound_def split: option.splits)
  show ?thesis
    using assms(1) d
    by (auto simp: ordered_def gemini_round_def split: option.splits)
qed

lemma zip_upt_Suc:
  "k < length buffer \<Longrightarrow>
   zip [0..<Suc k] (take (Suc k) buffer) = zip [0..<k] (take k buffer) @ [(k, buffer ! k)]"
  by (simp add: take_Suc_conv_app_nth)

lemma gemini_loop_machine:
  assumes "k \<le> length buffer"
  shows "\<exists>st. foldl (gemini_round buffer) (scan0, []) (zip [0..<k] (take k buffer))
                = (st, outs machine0 (take k buffer))
              \<and> agrees buffer k st (after machine0 (take k buffer)) \<and> ordered k st"
  using assms
proof (induction k)
  case 0
  show ?case by (simp add: agrees_def ordered_def scan0_def machine0_def)
next
  case (Suc k)
  then have k: "k < length buffer" by simp
  let ?a = "after machine0 (take k buffer)"
  let ?o = "outs machine0 (take k buffer)"
  from Suc obtain st where
    f: "foldl (gemini_round buffer) (scan0, []) (zip [0..<k] (take k buffer)) = (st, ?o)"
    and ag: "agrees buffer k st ?a" and ord: "ordered k st"
    by auto
  from gemini_round_agrees [OF k ag, of ?o] obtain st' a' found' where
    g: "gemini_round buffer (st, ?o) (k, buffer ! k) = (st', found')"
    and m: "mstep (?a, ?o) (buffer ! k) = (a', found')"
    and ag': "agrees buffer (Suc k) st' a'"
    by blast
  have t: "take (Suc k) buffer = take k buffer @ [buffer ! k]"
    using k by (simp add: take_Suc_conv_app_nth)
  have "mrun (machine0, []) (take (Suc k) buffer) = mstep (?a, ?o) (buffer ! k)"
    unfolding t mrun_append by (simp add: mrun_found [of machine0 "[]" "take k buffer"])
  with m have a': "after machine0 (take (Suc k) buffer) = a'"
    and o': "outs machine0 (take (Suc k) buffer) = found'"
    by (simp_all add: after_def outs_def)
  have snd: "sound ?a" by (rule sound_after [OF sound_machine0])
  from gemini_round_ordered [OF ord ag snd, of ?o "buffer ! k"] g
  have ord': "ordered (Suc k) st'" by simp
  have "foldl (gemini_round buffer) (scan0, []) (zip [0..<Suc k] (take (Suc k) buffer))
        = (st', found')"
    unfolding zip_upt_Suc [OF k] by (simp add: f g)
  with ag' ord' a' o' show ?case by auto
qed

lemma gemini_keep_residue:
  assumes "agrees buffer (length buffer) st a" "ordered (length buffer) st"
  shows "gemini_keep buffer st = residue a"
  using assms
  by (auto simp: gemini_keep_def residue_def agrees_def ordered_def substring_end
      split: option.splits)

theorem gemini_transform_machine:
  "gemini_transform buffer0 chunk
     = (residue (after machine0 (buffer0 @ chunk)), outs machine0 (buffer0 @ chunk))"
proof -
  let ?b = "buffer0 @ chunk"
  from gemini_loop_machine [of "length ?b" ?b] obtain st where
    f: "foldl (gemini_round ?b) (scan0, []) (zip [0..<length ?b] ?b) = (st, outs machine0 ?b)"
    and ag: "agrees ?b (length ?b) st (after machine0 ?b)" and ord: "ordered (length ?b) st"
    by auto
  show ?thesis
    using f gemini_keep_residue [OF ag ord] by (simp add: gemini_transform_def Let_def)
qed

subsection \<open>The loop of the Vertex branch and the machine\<close>

definition completes :: "scan \<Rightarrow> char \<Rightarrow> bool" where
  "completes st c =
     (\<not> inString st \<and> c = CHR ''}'' \<and> startPos st \<noteq> None \<and> bracketDepth st - 1 = 0)"

lemma vertex_loop_end: "\<not> i < length buffer \<Longrightarrow> vertex_loop reset buffer i st found = (buffer, found)"
  by (subst vertex_loop.simps) simp

lemma vertex_loop_on:
  assumes "i < length buffer" "\<not> completes st (buffer ! i)"
  shows "vertex_loop reset buffer i st found
         = vertex_loop reset buffer (Suc i) (fst (gemini_round buffer (st, found) (i, buffer ! i))) found"
  using assms
  by (subst vertex_loop.simps)
     (auto simp: completes_def gemini_round_def Let_def split: option.splits)

lemma vertex_loop_cut:
  assumes "i < length buffer" "completes st (buffer ! i)" "startPos st = Some s"
  shows "vertex_loop reset buffer i st found
         = (let st' = st\<lparr>bracketDepth := 0, endPos := Some i,
                          startPos := (if reset then None else startPos st)\<rparr>;
                found' = found @ [substring buffer s (i + 1)]
            in if i + 1 < length buffer
               then vertex_loop reset (drop (i + 1) buffer) 0 st' found'
               else ([], found'))"
  using assms
  by (subst vertex_loop.simps) (auto simp: completes_def Let_def)

lemma gemini_round_found:
  "\<not> completes st c \<Longrightarrow> snd (gemini_round buffer (st, found) (i, c)) = found"
  by (auto simp: completes_def gemini_round_def split: option.splits)

lemma completes_machine:
  assumes "agrees buffer i st a" "completes st c" "sound a" "i < length buffer" "buffer ! i = c"
  obtains s where "startPos st = Some s"
    and "mstep (a, []) c = (machine0, [substring buffer s (i + 1)])"
proof -
  from assms(2) obtain s where s: "startPos st = Some s" by (auto simp: completes_def)
  with assms(1) have si: "s \<le> i" and acc: "m_acc a = Some (substring buffer s i)"
    by (simp_all add: agrees_def)
  from assms(1,2) have q: "\<not> m_quoted a" and d: "m_depth a - 1 = 0" and c: "c = CHR ''}''"
    by (simp_all add: agrees_def completes_def)
  from q assms(3) have e: "\<not> m_escaped a" by (simp add: sound_def)
  have "a\<lparr>m_acc := None, m_depth := 0\<rparr> = machine0"
    using q e by (simp add: machine0_def)
  then have "mstep (a, []) c = (machine0, [substring buffer s i @ [c]])"
    using q d c acc by (simp add: mstep_def Let_def)
  with substring_Suc [OF si assms(4)] assms(5) s that show thesis by simp
qed

lemma not_completes_machine:
  assumes "agrees buffer i st a" "\<not> completes st c"
  shows "snd (mstep (a, []) c) = []"
  using assms
  by (auto simp: agrees_def completes_def mstep_def Let_def split: option.splits)

lemma vertex_loop_machine:
  assumes "agrees buffer i st a" "a = after machine0 (take i buffer)"
    "outs machine0 (take i buffer) = []" "i \<le> length buffer"
  shows "\<exists>buffer'. vertex_loop True buffer i st found = (buffer', found @ outs a (drop i buffer))
           \<and> after machine0 buffer' = after a (drop i buffer) \<and> outs machine0 buffer' = []"
  using assms
proof (induction "length buffer - i" arbitrary: buffer i st a found rule: less_induct)
  case less
  have snd: "sound a" unfolding less.prems(2) by (rule sound_after [OF sound_machine0])
  show ?case
  proof (cases "i < length buffer")
    case False
    with less.prems(4) have i: "i = length buffer" by simp
    then show ?thesis
      using less.prems(2,3) by (simp add: vertex_loop_end)
  next
    case True
    let ?c = "buffer ! i"
    have dr: "drop i buffer = ?c # drop (Suc i) buffer" using True by (simp add: Cons_nth_drop_Suc)
    have tk: "take (Suc i) buffer = take i buffer @ [?c]"
      using True by (simp add: take_Suc_conv_app_nth)
    show ?thesis
    proof (cases "completes st ?c")
      case False
      let ?st = "fst (gemini_round buffer (st, found) (i, ?c))"
      let ?a = "fst (mstep (a, []) ?c)"
      from gemini_round_agrees [OF True less.prems(1), of found] obtain st' a' found' where
        g: "gemini_round buffer (st, found) (i, ?c) = (st', found')"
        and m: "mstep (a, found) ?c = (a', found')" and ag: "agrees buffer (Suc i) st' a'"
        by blast
      from m have a': "a' = ?a" using mstep_found [of a found ?c] by simp
      have o: "snd (mstep (a, []) ?c) = []" by (rule not_completes_machine [OF less.prems(1) False])
      have ag': "agrees buffer (Suc i) ?st ?a" using ag g a' by simp
      have af: "?a = after machine0 (take (Suc i) buffer)"
        unfolding tk by (simp add: after_append after_single less.prems(2))
      have ou: "outs machine0 (take (Suc i) buffer) = []"
        unfolding tk using o less.prems(2,3) by (simp add: outs_append outs_single)
      have "length buffer - Suc i < length buffer - i" using True by simp
      from less.hyps [OF this ag' af ou, of found] True
      obtain buffer' where
        v: "vertex_loop True buffer (Suc i) ?st found = (buffer', found @ outs ?a (drop (Suc i) buffer))"
        and r: "after machine0 buffer' = after ?a (drop (Suc i) buffer)" "outs machine0 buffer' = []"
        by auto
      have oa: "outs a (drop i buffer) = outs ?a (drop (Suc i) buffer)"
        unfolding dr using outs_append [of a "[?c]" "drop (Suc i) buffer"] o
        by (simp add: outs_single after_single)
      have aa: "after a (drop i buffer) = after ?a (drop (Suc i) buffer)"
        unfolding dr using after_append [of a "[?c]" "drop (Suc i) buffer"]
        by (simp add: after_single)
      show ?thesis
        unfolding vertex_loop_on [OF True False] using v r oa aa by simp
    next
      case c: True
      from completes_machine [OF less.prems(1) c snd True refl] obtain s where
        s: "startPos st = Some s"
        and m: "mstep (a, []) ?c = (machine0, [substring buffer s (i + 1)])"
        by blast
      let ?st = "st\<lparr>bracketDepth := 0, endPos := Some i, startPos := None\<rparr>"
      let ?found = "found @ [substring buffer s (i + 1)]"
      have oa: "outs a (drop i buffer)
                = substring buffer s (i + 1) # outs machine0 (drop (Suc i) buffer)"
        unfolding dr using outs_append [of a "[?c]" "drop (Suc i) buffer"] m
        by (simp add: outs_single after_single)
      have aa: "after a (drop i buffer) = after machine0 (drop (Suc i) buffer)"
        unfolding dr using after_append [of a "[?c]" "drop (Suc i) buffer"] m
        by (simp add: after_single)
      show ?thesis
      proof (cases "i + 1 < length buffer")
        case False
        with True have e: "drop (Suc i) buffer = []" by simp
        show ?thesis
          using vertex_loop_cut [OF True c s, of True found] False oa aa
          by (simp add: Let_def e)
      next
        case n: True
        from less.prems(1) c snd have q: "\<not> inString st" "\<not> escapeNext st"
          by (auto simp: completes_def agrees_def sound_def)
        have ag': "agrees (drop (i + 1) buffer) 0 ?st machine0"
          using q by (simp add: agrees_def machine0_def)
        have "length (drop (i + 1) buffer) - 0 < length buffer - i" using True by simp
        from less.hyps [OF this ag', of ?found]
        obtain buffer' where
          v: "vertex_loop True (drop (i + 1) buffer) 0 ?st ?found
              = (buffer', ?found @ outs machine0 (drop (i + 1) buffer))"
          and r: "after machine0 buffer' = after machine0 (drop (i + 1) buffer)"
             "outs machine0 buffer' = []"
          by auto
        show ?thesis
          using vertex_loop_cut [OF True c s, of True found] n v r oa aa
          by (simp add: Let_def)
      qed
    qed
  qed
qed

text \<open>A scan in which the machine finds nothing hands nothing on, in either loop.\<close>

lemma vertex_loop_nothing:
  assumes "agrees buffer i st a" "outs a (drop i buffer) = []" "sound a"
  shows "snd (vertex_loop reset buffer i st found) = found"
  using assms
proof (induction "length buffer - i" arbitrary: i st a rule: less_induct)
  case less
  show ?case
  proof (cases "i < length buffer")
    case False
    then show ?thesis by (simp add: vertex_loop_end)
  next
    case True
    let ?c = "buffer ! i"
    have dr: "drop i buffer = ?c # drop (Suc i) buffer" using True by (simp add: Cons_nth_drop_Suc)
    have sp: "outs a (drop i buffer) = outs a [?c] @ outs (after a [?c]) (drop (Suc i) buffer)"
      unfolding dr using outs_append [of a "[?c]" "drop (Suc i) buffer"] by simp
    show ?thesis
    proof (cases "completes st ?c")
      case c: True
      from completes_machine [OF less.prems(1) c less.prems(3) True refl] obtain s where
        "mstep (a, []) ?c = (machine0, [substring buffer s (i + 1)])"
        by blast
      with sp less.prems(2) show ?thesis by (simp add: outs_single)
    next
      case False
      let ?st = "fst (gemini_round buffer (st, found) (i, ?c))"
      let ?a = "fst (mstep (a, []) ?c)"
      from gemini_round_agrees [OF True less.prems(1), of found] obtain st' a' found' where
        g: "gemini_round buffer (st, found) (i, ?c) = (st', found')"
        and m: "mstep (a, found) ?c = (a', found')" and ag: "agrees buffer (Suc i) st' a'"
        by blast
      from m have a': "a' = ?a" using mstep_found [of a found ?c] by simp
      have ag': "agrees buffer (Suc i) ?st ?a" using ag g a' by simp
      have o: "outs ?a (drop (Suc i) buffer) = []"
        using sp less.prems(2) by (simp add: after_single)
      have s': "sound ?a" by (rule sound_step [OF less.prems(3)])
      have "length buffer - Suc i < length buffer - i" using True by simp
      from less.hyps [OF this ag' o s']
      show ?thesis unfolding vertex_loop_on [OF True False] .
    qed
  qed
qed

subsection \<open>Well-formed streams\<close>

text \<open>
  The text of a stream, as far as the braces and the quotes go. The body of a string
  literal has no quote but after a backslash, and a backslash takes the next character
  with it. The content of an object is made of characters other than the braces and the
  quote, of string literals and of objects. A stream is a sequence of objects with
  separators before, between and after them; a separator is any character but a brace or a
  quote, so the brackets and commas of an array, blanks and line ends are separators.
\<close>

fun string_body :: "string \<Rightarrow> bool" where
  "string_body [] = True"
| "string_body [c] = (c \<noteq> CHR 0x5C \<and> c \<noteq> CHR 0x22)"
| "string_body (c # d # cs) =
     (if c = CHR 0x5C then string_body cs else c \<noteq> CHR 0x22 \<and> string_body (d # cs))"

inductive content :: "string \<Rightarrow> bool" where
  content_end: "content []"
| content_char: "c \<noteq> CHR ''{'' \<Longrightarrow> c \<noteq> CHR ''}'' \<Longrightarrow> c \<noteq> CHR 0x22 \<Longrightarrow> content cs
                 \<Longrightarrow> content (c # cs)"
| content_string: "string_body b \<Longrightarrow> content cs \<Longrightarrow> content (CHR 0x22 # b @ CHR 0x22 # cs)"
| content_object: "content a \<Longrightarrow> content cs \<Longrightarrow> content (CHR ''{'' # a @ CHR ''}'' # cs)"

definition object_text :: "string \<Rightarrow> bool" where
  "object_text s = (\<exists>a. content a \<and> s = CHR ''{'' # a @ [CHR ''}''])"

definition separators :: "string \<Rightarrow> bool" where
  "separators s = (\<forall>c\<in>set s. c \<noteq> CHR ''{'' \<and> c \<noteq> CHR ''}'' \<and> c \<noteq> CHR 0x22)"

inductive stream_of :: "string list \<Rightarrow> string \<Rightarrow> bool" where
  stream_end: "separators s \<Longrightarrow> stream_of [] s"
| stream_object: "separators s \<Longrightarrow> object_text obj \<Longrightarrow> stream_of objs rest
                  \<Longrightarrow> stream_of (obj # objs) (s @ obj @ rest)"

subsection \<open>The machine on a well-formed stream\<close>

lemma run_string_body:
  assumes "string_body b" "m_quoted a" "\<not> m_escaped a" "m_acc a = Some xs"
  shows "mrun (a, []) b = (a\<lparr>m_acc := Some (xs @ b)\<rparr>, [])"
  using assms
proof (induction b arbitrary: a xs rule: string_body.induct)
  case 1
  then show ?case by simp
next
  case (2 c)
  then show ?case by (simp add: mstep_def Let_def)
next
  case (3 c d cs)
  show ?case
  proof (cases "c = CHR 0x5C")
    case True
    let ?a = "a\<lparr>m_acc := Some (xs @ [c, d])\<rparr>"
    have s: "mstep (mstep (a, []) c) d = (?a, [])"
      using True 3 by (simp add: mstep_def Let_def)
    from 3 True have "string_body cs" by simp
    from "3.IH"(1) [OF True this, of ?a "xs @ [c, d]"] 3
    have "mrun (?a, []) cs = (?a\<lparr>m_acc := Some ((xs @ [c, d]) @ cs)\<rparr>, [])" by simp
    with s show ?thesis by simp
  next
    case False
    let ?a = "a\<lparr>m_acc := Some (xs @ [c])\<rparr>"
    from 3 False have c: "c \<noteq> CHR 0x22" and b: "string_body (d # cs)" by simp_all
    have s: "mstep (a, []) c = (?a, [])"
      using False c 3 by (simp add: mstep_def Let_def)
    from "3.IH"(2) [OF False b, of ?a "xs @ [c]"] 3
    have "mrun (?a, []) (d # cs) = (?a\<lparr>m_acc := Some ((xs @ [c]) @ d # cs)\<rparr>, [])" by simp
    with s show ?thesis by simp
  qed
qed

lemma run_content:
  assumes "content x" "\<not> m_quoted a" "\<not> m_escaped a" "m_acc a = Some xs" "1 \<le> m_depth a"
  shows "mrun (a, []) x = (a\<lparr>m_acc := Some (xs @ x)\<rparr>, [])"
  using assms
proof (induction x arbitrary: a xs rule: content.induct)
  case content_end
  then show ?case by simp
next
  case (content_char c cs)
  let ?a = "a\<lparr>m_acc := Some (xs @ [c])\<rparr>"
  have s: "mstep (a, []) c = (?a, [])"
    using content_char by (simp add: mstep_def Let_def)
  from content_char.IH [of ?a "xs @ [c]"] content_char.prems
  have "mrun (?a, []) cs = (?a\<lparr>m_acc := Some ((xs @ [c]) @ cs)\<rparr>, [])" by simp
  with s show ?case by simp
next
  case (content_string b cs)
  let ?q = "CHR 0x22"
  let ?a1 = "a\<lparr>m_acc := Some (xs @ [?q]), m_quoted := True\<rparr>"
  have s1: "mstep (a, []) ?q = (?a1, [])"
    using content_string.prems by (simp add: mstep_def Let_def)
  have s2: "mrun (?a1, []) b = (?a1\<lparr>m_acc := Some ((xs @ [?q]) @ b)\<rparr>, [])"
    by (rule run_string_body [OF content_string.hyps(1)])
       (use content_string.prems in simp_all)
  let ?a3 = "a\<lparr>m_acc := Some (xs @ ?q # b @ [?q])\<rparr>"
  have s3: "mstep (?a1\<lparr>m_acc := Some ((xs @ [?q]) @ b)\<rparr>, []) ?q = (?a3, [])"
    using content_string.prems by (simp add: mstep_def Let_def)
  from content_string.IH [of ?a3 "xs @ ?q # b @ [?q]"] content_string.prems
  have s4: "mrun (?a3, []) cs = (?a3\<lparr>m_acc := Some ((xs @ ?q # b @ [?q]) @ cs)\<rparr>, [])" by simp
  have "mrun (a, []) (?q # b @ ?q # cs) = mrun (mrun (mrun (mstep (a, []) ?q) b) [?q]) cs"
    by (simp add: mrun_append)
  with s1 s2 s3 s4 show ?case by simp
next
  case (content_object b cs)
  let ?o = "CHR ''{''" and ?c = "CHR ''}''"
  let ?a1 = "a\<lparr>m_acc := Some (xs @ [?o]), m_depth := m_depth a + 1\<rparr>"
  have s1: "mstep (a, []) ?o = (?a1, [])"
    using content_object.prems by (simp add: mstep_def Let_def)
  from content_object.IH(1) [of ?a1 "xs @ [?o]"] content_object.prems
  have s2: "mrun (?a1, []) b = (?a1\<lparr>m_acc := Some ((xs @ [?o]) @ b)\<rparr>, [])" by simp
  let ?a3 = "a\<lparr>m_acc := Some (xs @ ?o # b @ [?c])\<rparr>"
  have s3: "mstep (?a1\<lparr>m_acc := Some ((xs @ [?o]) @ b)\<rparr>, []) ?c = (?a3, [])"
    using content_object.prems by (simp add: mstep_def Let_def)
  from content_object.IH(2) [of ?a3 "xs @ ?o # b @ [?c]"] content_object.prems
  have s4: "mrun (?a3, []) cs = (?a3\<lparr>m_acc := Some ((xs @ ?o # b @ [?c]) @ cs)\<rparr>, [])" by simp
  have "mrun (a, []) (?o # b @ ?c # cs) = mrun (mrun (mrun (mstep (a, []) ?o) b) [?c]) cs"
    by (simp add: mrun_append)
  with s1 s2 s3 s4 show ?case by simp
qed

definition opened :: machine where
  "opened = \<lparr>m_acc = Some ''{'', m_depth = 1, m_quoted = False, m_escaped = False\<rparr>"

lemma run_open: "mstep (machine0, []) CHR ''{'' = (opened, [])"
  by (simp add: mstep_def machine0_def opened_def)

lemma run_object_content:
  assumes "content a"
  shows "mrun (opened, []) a = (opened\<lparr>m_acc := Some (CHR ''{'' # a)\<rparr>, [])"
  using run_content [OF assms, of opened "''{''"] by (simp add: opened_def)

lemma run_object:
  assumes "object_text obj"
  shows "mrun (machine0, []) obj = (machine0, [obj])"
proof -
  from assms obtain a where a: "content a" and o: "obj = CHR ''{'' # a @ [CHR ''}'']"
    by (auto simp: object_text_def)
  have "mrun (machine0, []) obj = mstep (mrun (opened, []) a) CHR ''}''"
    unfolding o by (simp add: run_open mrun_append)
  also have "\<dots> = (machine0, [obj])"
    unfolding run_object_content [OF a] o by (simp add: mstep_def opened_def machine0_def)
  finally show ?thesis .
qed

lemma run_separators:
  assumes "separators s"
  shows "mrun (machine0, []) s = (machine0, [])"
  using assms
proof (induction s)
  case Nil
  show ?case by simp
next
  case (Cons c s)
  then have "mstep (machine0, []) c = (machine0, [])"
    by (simp add: separators_def mstep_def machine0_def)
  with Cons show ?case by (simp add: separators_def)
qed

lemma run_stream:
  assumes "stream_of objs input"
  shows "mrun (machine0, []) input = (machine0, objs)"
  using assms
proof (induction rule: stream_of.induct)
  case (stream_end s)
  then show ?case by (rule run_separators)
next
  case (stream_object s obj objs rest)
  have "mrun (machine0, []) (s @ obj @ rest) = mrun (mrun (mrun (machine0, []) s) obj) rest"
    by (simp add: mrun_append)
  also have "\<dots> = mrun (machine0, [obj]) rest"
    by (simp add: run_separators [OF stream_object.hyps(1)] run_object [OF stream_object.hyps(2)])
  also have "\<dots> = (machine0, [obj] @ objs)"
    using mrun_found [of machine0 "[obj]" rest] stream_object.IH
    by (simp add: after_def outs_def)
  finally show ?case by simp
qed

subsection \<open>Between two objects the machine is in its first state\<close>

definition clean :: "machine \<Rightarrow> bool" where
  "clean a = (m_acc a = None \<longrightarrow> a = machine0)"

definition all_clean :: "machine \<Rightarrow> string \<Rightarrow> bool" where
  "all_clean a cs = (\<forall>p. prefix p cs \<longrightarrow> clean (after a p))"

lemma all_clean_append:
  assumes "all_clean a xs" "all_clean (after a xs) ys"
  shows "all_clean a (xs @ ys)"
  unfolding all_clean_def
proof (intro allI impI)
  fix p assume "prefix p (xs @ ys)"
  then consider "prefix p xs" | p' where "p = xs @ p'" "prefix p' ys"
    by (auto simp: prefix_append)
  then show "clean (after a p)"
  proof cases
    case 1
    with assms(1) show ?thesis by (simp add: all_clean_def)
  next
    case 2
    with assms(2) show ?thesis by (simp add: all_clean_def after_append)
  qed
qed

lemma separators_prefix: "separators s \<Longrightarrow> prefix p s \<Longrightarrow> separators p"
  by (auto simp: separators_def dest: set_mono_prefix)

lemma all_clean_separators:
  assumes "separators s"
  shows "all_clean machine0 s"
  unfolding all_clean_def
proof (intro allI impI)
  fix p assume "prefix p s"
  from run_separators [OF separators_prefix [OF assms this]]
  show "clean (after machine0 p)" by (simp add: after_def clean_def)
qed

lemma step_keeps_object:
  "m_acc a \<noteq> None \<Longrightarrow> snd (mstep (a, []) c) = [] \<Longrightarrow> m_acc (fst (mstep (a, []) c)) \<noteq> None"
  by (auto simp: mstep_def Let_def split: if_splits)

lemma run_keeps_object:
  assumes "m_acc a \<noteq> None" "outs a x = []"
  shows "m_acc (after a x) \<noteq> None"
  using assms
proof (induction x arbitrary: a)
  case Nil
  then show ?case by simp
next
  case (Cons c x)
  from Cons.prems(2) outs_append [of a "[c]" x]
  have o: "snd (mstep (a, []) c) = []" "outs (after a [c]) x = []"
    by (simp_all add: outs_single)
  from step_keeps_object [OF Cons.prems(1) o(1)] have "m_acc (after a [c]) \<noteq> None"
    by (simp add: after_single)
  from Cons.IH [OF this o(2)] after_append [of a "[c]" x] show ?case by simp
qed

lemma all_clean_object:
  assumes "object_text obj"
  shows "all_clean machine0 obj"
  unfolding all_clean_def
proof (intro allI impI)
  fix p assume p: "prefix p obj"
  from assms obtain a where a: "content a" and o: "obj = CHR ''{'' # a @ [CHR ''}'']"
    by (auto simp: object_text_def)
  show "clean (after machine0 p)"
  proof (cases "p = obj")
    case True
    with run_object [OF assms] show ?thesis by (simp add: after_def clean_def)
  next
    case False
    show ?thesis
    proof (cases p)
      case Nil
      then show ?thesis by (simp add: clean_def)
    next
      case (Cons c p')
      with p o have c: "c = CHR ''{''" and p': "prefix p' (a @ [CHR ''}''])" by simp_all
      from p' False Cons c o have "prefix p' a"
        by (metis prefix_snoc)
      then obtain r where r: "a = p' @ r" by (auto simp: prefix_def)
      have "outs opened a = []" using run_object_content [OF a] by (simp add: outs_def)
      then have "outs opened p' = []" unfolding r by (simp add: outs_append)
      moreover have "m_acc opened \<noteq> None" by (simp add: opened_def)
      ultimately have "m_acc (after opened p') \<noteq> None" by (rule run_keeps_object [rotated])
      moreover have "after machine0 p = after opened p'"
        unfolding Cons c using after_append [of machine0 "''{''" p']
        by (simp add: after_single run_open)
      ultimately show ?thesis by (auto simp: clean_def)
    qed
  qed
qed

lemma all_clean_stream:
  assumes "stream_of objs input"
  shows "all_clean machine0 input"
  using assms
proof (induction rule: stream_of.induct)
  case (stream_end s)
  then show ?case by (rule all_clean_separators)
next
  case (stream_object s obj objs rest)
  have s: "after machine0 s = machine0"
    using run_separators [OF stream_object.hyps(1)] by (simp add: after_def)
  have o: "after machine0 obj = machine0"
    using run_object [OF stream_object.hyps(2)] by (simp add: after_def)
  have r: "all_clean (after machine0 obj) rest" using stream_object.IH by (simp add: o)
  have "all_clean machine0 (obj @ rest)"
    by (rule all_clean_append [OF all_clean_object [OF stream_object.hyps(2)] r])
  then have "all_clean (after machine0 s) (obj @ rest)" by (simp add: s)
  with all_clean_separators [OF stream_object.hyps(1)] show ?case
    by (rule all_clean_append)
qed

subsection \<open>Chunk after chunk\<close>

lemma feed_pair:
  "feed transform (buffer, found) chunk
     = (fst (transform buffer chunk), found @ snd (transform buffer chunk))"
  by (simp add: feed_def split: prod.splits)

lemma gemini_chunks:
  assumes "all_clean machine0 (concat chunks)"
  shows "foldl (feed gemini_transform) ([], []) chunks
         = (residue (after machine0 (concat chunks)), outs machine0 (concat chunks))"
  using assms
proof (induction chunks rule: rev_induct)
  case Nil
  show ?case by (simp add: residue_def machine0_def)
next
  case (snoc chunk chunks)
  let ?p = "concat chunks"
  let ?a = "after machine0 ?p"
  have pre: "all_clean machine0 ?p"
    using snoc.prems by (auto simp: all_clean_def intro: prefix_order.trans)
  from snoc.prems have cl: "clean ?a" by (simp add: all_clean_def)
  have rs: "mrun (machine0, []) (residue ?a) = (?a, [])"
  proof (cases "m_acc ?a")
    case None
    with cl show ?thesis by (simp add: clean_def residue_def)
  next
    case (Some xs)
    with restartable_after [of ?p] show ?thesis by (simp add: restartable_def residue_def)
  qed
  have "mrun (machine0, []) (residue ?a @ chunk) = mrun (?a, []) chunk"
    by (simp add: mrun_append rs)
  then have a: "after machine0 (residue ?a @ chunk) = after ?a chunk"
    and o: "outs machine0 (residue ?a @ chunk) = outs ?a chunk"
    by (simp_all add: after_def outs_def)
  have "foldl (feed gemini_transform) ([], []) (chunks @ [chunk])
        = feed gemini_transform (residue ?a, outs machine0 ?p) chunk"
    by (simp only: foldl_append foldl.simps snoc.IH [OF pre])
  also have "\<dots> = (residue (after ?a chunk), outs machine0 ?p @ outs ?a chunk)"
    by (simp only: feed_pair gemini_transform_machine a o fst_conv snd_conv)
  finally show ?case by (simp add: after_append outs_append)
qed

lemma vertex_chunks:
  "\<exists>buffer. foldl (feed vertex_transform) ([], []) chunks = (buffer, outs machine0 (concat chunks))
     \<and> after machine0 buffer = after machine0 (concat chunks) \<and> outs machine0 buffer = []"
proof (induction chunks rule: rev_induct)
  case Nil
  show ?case by simp
next
  case (snoc chunk chunks)
  let ?p = "concat chunks"
  from snoc obtain buffer where
    f: "foldl (feed vertex_transform) ([], []) chunks = (buffer, outs machine0 ?p)"
    and a: "after machine0 buffer = after machine0 ?p" and o: "outs machine0 buffer = []"
    by blast
  have "agrees (buffer @ chunk) 0 scan0 machine0"
    by (simp add: agrees_def scan0_def machine0_def)
  from vertex_loop_machine [OF this, of "[]"]
  obtain buffer' where
    v: "vertex_loop True (buffer @ chunk) 0 scan0 [] = (buffer', outs machine0 (buffer @ chunk))"
    and r: "after machine0 buffer' = after machine0 (buffer @ chunk)" "outs machine0 buffer' = []"
    by auto
  have "outs machine0 (buffer @ chunk) = outs (after machine0 ?p) chunk"
    by (simp add: outs_append o a)
  moreover have "after machine0 (buffer @ chunk) = after machine0 (?p @ chunk)"
    by (simp add: after_append a)
  moreover have "foldl (feed vertex_transform) ([], []) (chunks @ [chunk])
        = (buffer', outs machine0 ?p @ outs machine0 (buffer @ chunk))"
    by (simp only: foldl_append foldl.simps f feed_pair vertex_transform_def v fst_conv snd_conv)
  ultimately show ?case
    using r by (auto simp: outs_append)
qed

lemma trim_Nil: "trim [] = []"
  by (simp add: trim_def)

text \<open>The Vertex branch hands on what the machine finds in the whole input, whatever the
  input and the chunks are.\<close>

lemma vertex_chunker_machine: "vertex_chunker chunks = outs machine0 (concat chunks)"
proof -
  from vertex_chunks [of chunks] obtain buffer where
    f: "foldl (feed vertex_transform) ([], []) chunks = (buffer, outs machine0 (concat chunks))"
    and o: "outs machine0 buffer = []"
    by blast
  have "agrees buffer 0 scan0 machine0" by (simp add: agrees_def scan0_def machine0_def)
  from vertex_loop_nothing [OF this _ sound_machine0, of False "[]"] o
  have "snd (vertex_loop False buffer 0 scan0 []) = []" by simp
  then show ?thesis by (simp add: vertex_chunker_def f vertex_flush_def)
qed

lemma gemini_chunker_stream:
  assumes "stream_of objs (concat chunks)"
  shows "gemini_chunker chunks = objs"
proof -
  from run_stream [OF assms] have a: "after machine0 (concat chunks) = machine0"
    and o: "outs machine0 (concat chunks) = objs"
    by (simp_all add: after_def outs_def)
  have "residue machine0 = []" by (simp add: residue_def machine0_def)
  then show ?thesis
    by (simp add: gemini_chunker_def gemini_chunks [OF all_clean_stream [OF assms]] a o
        gemini_flush_def trim_Nil)
qed

lemma vertex_chunker_stream:
  assumes "stream_of objs (concat chunks)"
  shows "vertex_chunker chunks = objs"
  using run_stream [OF assms] by (simp add: vertex_chunker_machine outs_def)

text \<open>The object of the specification whose string holds a closing brace.\<close>

definition brace_in_string :: string where
  "brace_in_string = [CHR ''{'', CHR 0x22, CHR ''a'', CHR 0x22, CHR '':'', CHR 0x22, CHR ''}'',
                      CHR 0x22, CHR ''}'']"

lemma brace_in_string_object: "object_text brace_in_string"
proof -
  have "content [CHR 0x22, CHR ''}'', CHR 0x22]"
    using content_string [of "[CHR ''}'']" "[]"] by (simp add: content_end)
  from content_char [OF _ _ _ this, of "CHR '':''"]
  have "content [CHR '':'', CHR 0x22, CHR ''}'', CHR 0x22]" by simp
  then have "content [CHR 0x22, CHR ''a'', CHR 0x22, CHR '':'', CHR 0x22, CHR ''}'', CHR 0x22]"
    using content_string [of "[CHR ''a'']" "[CHR '':'', CHR 0x22, CHR ''}'', CHR 0x22]"] by simp
  then show ?thesis by (auto simp: object_text_def brace_in_string_def)
qed

text \<open>
  C5. Whenever the chunks of a stream make up a well-formed stream of the objects \<open>objs\<close>,
  both branches of the chunker hand on exactly these objects, each once and in the order of
  the input, however the input is cut into chunks; \<^verbatim>\<open>flush\<close> adds nothing. The input
  \<^verbatim>\<open>{"a":"}"}\<close> in one chunk gives that one object.
\<close>

theorem chunker_extracts_objects:
  "(stream_of objs (concat chunks) \<longrightarrow>
      gemini_chunker chunks = objs \<and> vertex_chunker chunks = objs)
   \<and> gemini_chunker [brace_in_string] = [brace_in_string]
   \<and> vertex_chunker [brace_in_string] = [brace_in_string]"
proof -
  have "stream_of [brace_in_string] ([] @ brace_in_string @ [])"
    by (intro stream_object stream_end brace_in_string_object) (simp_all add: separators_def)
  then have st: "stream_of [brace_in_string] (concat [brace_in_string])" by simp
  show ?thesis
    using gemini_chunker_stream [of objs chunks] vertex_chunker_stream [of objs chunks]
      gemini_chunker_stream [OF st] vertex_chunker_stream [OF st]
    by blast
qed

text \<open>
  The object \<^verbatim>\<open>{"a":"}"}\<close> inside array brackets, cut in the middle of its second string: it
  is handed on once, whole.
\<close>

theorem chunker_extracts_objects_witness:
  "gemini_chunker [''['' @ take 7 brace_in_string, drop 7 brace_in_string @ '']''] = [brace_in_string]
   \<and> vertex_chunker [''['' @ take 7 brace_in_string, drop 7 brace_in_string @ '']''] = [brace_in_string]"
proof -
  have st: "stream_of [brace_in_string] (''['' @ brace_in_string @ '']'')"
    by (intro stream_object stream_end brace_in_string_object) (simp_all add: separators_def)
  have eq: "concat [''['' @ take 7 brace_in_string, drop 7 brace_in_string @ '']'']
            = ''['' @ brace_in_string @ '']''"
    by (simp add: brace_in_string_def)
  have "stream_of [brace_in_string]
          (concat [''['' @ take 7 brace_in_string, drop 7 brace_in_string @ '']''])"
    unfolding eq by (rule st)
  with chunker_extracts_objects
         [of "[brace_in_string]" "[''['' @ take 7 brace_in_string, drop 7 brace_in_string @ '']'']"]
  show ?thesis by blast
qed

end
